theory Spec2Isabelle
  imports Main "HOL-Library.Word" "HOL-Library.Char_ord" "HOL-Library.List_Lexorder"
begin

section \<open>Text as bytes\<close>

text \<open>
  A Go string is a sequence of bytes, modelled as \<^typ>\<open>string\<close>. The regular
  expressions of \<^verbatim>\<open>main.go\<close> read the text as UTF-8, but every literal and every
  positive class in them is ASCII, so a \<open>.\<close> or a negated class can be stepped one byte
  at a time: a match can neither start nor end inside a multi-byte rune. The one place
  where a whole rune of several bytes is consumed is case-insensitive matching, where
  Go's simple case folding makes \<open>k\<close> match U+212A and \<open>s\<close> match U+017F.
\<close>

definition upperC :: string where
  "upperC = ''ABCDEFGHIJKLMNOPQRSTUVWXYZ''"

definition lowerC :: string where
  "lowerC = ''abcdefghijklmnopqrstuvwxyz''"

definition digitC :: string where
  "digitC = ''0123456789''"

text \<open>Perl's \<open>\s\<close> as Go defines it: tab, newline, form feed, carriage return, space.\<close>

definition spaceC :: string where
  "spaceC = [CHR 0x09, CHR 0x0A, CHR 0x0C, CHR 0x0D, CHR 0x20]"

text \<open>The class \<open>[A-Za-z0-9._:-]\<close> of connection names.\<close>

definition nameC :: string where
  "nameC = upperC @ lowerC @ digitC @ ''._:-''"

text \<open>The ASCII word characters that \<open>\b\<close> looks at.\<close>

definition wordC :: string where
  "wordC = digitC @ upperC @ lowerC @ ''_''"

definition lower :: "char \<Rightarrow> char" where
  "lower c = (case map_of (zip upperC lowerC) c of Some l \<Rightarrow> l | None \<Rightarrow> c)"

text \<open>
  The first rune of the input under simple case folding: its lower-case representative
  and its width in bytes. U+212A (KELVIN SIGN, bytes E2 84 AA) folds to \<open>k\<close> and
  U+017F (LONG S, bytes C5 BF) folds to \<open>s\<close>; nothing else folds into ASCII.
\<close>

fun fold_head :: "string \<Rightarrow> (char \<times> nat) option" where
  "fold_head [] = None"
| "fold_head (c # cs) =
     (if c = CHR 0xE2 \<and> take 2 cs = [CHR 0x84, CHR 0xAA] then Some (CHR ''k'', 3)
      else if c = CHR 0xC5 \<and> take 1 cs = [CHR 0xBF] then Some (CHR ''s'', 2)
      else Some (lower c, 1))"

section \<open>The fragment of Go's regexp syntax that the program uses\<close>

datatype atom =
    Chr char            \<comment> \<open>a literal byte\<close>
  | ChrI char           \<comment> \<open>a literal under \<open>(?i)\<close>\<close>
  | Cls string          \<comment> \<open>a class \<open>[...]\<close> of ASCII bytes\<close>
  | ClsI string         \<comment> \<open>a class under \<open>(?i)\<close>\<close>
  | NotCls string       \<comment> \<open>a negated class \<open>[^...]\<close>; it matches a newline too\<close>
  | Dot                 \<comment> \<open>\<open>.\<close>: anything but a newline\<close>

text \<open>How many bytes an atom consumes at the head of the input, if it matches there.\<close>

fun eat :: "atom \<Rightarrow> string \<Rightarrow> nat option" where
  "eat (Chr x) s = (case s of [] \<Rightarrow> None | c # _ \<Rightarrow> if c = x then Some 1 else None)"
| "eat (ChrI x) s =
     (case fold_head s of None \<Rightarrow> None
      | Some (c, n) \<Rightarrow> if c = lower x then Some n else None)"
| "eat (Cls xs) s = (case s of [] \<Rightarrow> None | c # _ \<Rightarrow> if c \<in> set xs then Some 1 else None)"
| "eat (ClsI xs) s =
     (case fold_head s of None \<Rightarrow> None
      | Some (c, n) \<Rightarrow> if c \<in> set (map lower xs) then Some n else None)"
| "eat (NotCls xs) s = (case s of [] \<Rightarrow> None | c # _ \<Rightarrow> if c \<in> set xs then None else Some 1)"
| "eat Dot s = (case s of [] \<Rightarrow> None | c # _ \<Rightarrow> if c = CHR 0x0A then None else Some 1)"

lemma take_full: "take k xs = ys \<Longrightarrow> length ys = k \<Longrightarrow> k \<le> length xs"
proof -
  assume "take k xs = ys" and "length ys = k"
  then have "length (take k xs) = k" by simp
  then show ?thesis by simp
qed

lemma fold_head_width: "fold_head s = Some (c, n) \<Longrightarrow> 0 < n \<and> n \<le> length s"
proof (cases s)
  case Nil
  assume "fold_head s = Some (c, n)"
  with Nil show ?thesis by simp
next
  case (Cons x xs)
  assume h: "fold_head s = Some (c, n)"
  show ?thesis
  proof (cases "x = CHR 0xE2 \<and> take 2 xs = [CHR 0x84, CHR 0xAA]")
    case True
    then have "2 \<le> length xs" using take_full [of 2 xs "[CHR 0x84, CHR 0xAA]"] by simp
    with h Cons True show ?thesis by simp
  next
    case ne: False
    show ?thesis
    proof (cases "x = CHR 0xC5 \<and> take 1 xs = [CHR 0xBF]")
      case True
      then have "1 \<le> length xs" using take_full [of 1 xs "[CHR 0xBF]"] by simp
      with h Cons ne True show ?thesis by auto
    next
      case False
      with h Cons ne show ?thesis by auto
    qed
  qed
qed

lemma eat_width: "eat a s = Some n \<Longrightarrow> 0 < n \<and> n \<le> length s"
proof (cases a)
  case (ChrI x)
  assume "eat a s = Some n"
  with ChrI show ?thesis
    by (auto split: option.splits if_splits dest: fold_head_width)
next
  case (ClsI x)
  assume "eat a s = Some n"
  with ClsI show ?thesis
    by (auto split: option.splits if_splits dest: fold_head_width)
qed (cases s; auto split: if_splits)+

text \<open>
  The offsets reachable from the head of the input by matching the atom again and
  again, shortest first: \<open>0\<close>, then the width of one match, of two, and so on.
\<close>

function runs :: "atom \<Rightarrow> string \<Rightarrow> nat list" where
  "runs a s = 0 # (case eat a s of None \<Rightarrow> [] | Some n \<Rightarrow> map (\<lambda>k. n + k) (runs a (drop n s)))"
  by pat_completeness auto
termination
proof (relation "measure (\<lambda>(a, s). length s)")
  show "wf (measure (\<lambda>(a, s). length s))" by simp
next
  fix a :: atom and s :: string and n :: nat
  assume "eat a s = Some n"
  then have "0 < n \<and> n \<le> length s" by (rule eat_width)
  then show "((a, drop n s), (a, s)) \<in> measure (\<lambda>(a, s). length s)" by auto
qed

declare runs.simps [simp del]

datatype re =
    Emp                 \<comment> \<open>the empty expression\<close>
  | Atom atom
  | Star atom           \<comment> \<open>\<open>x*\<close>, greedy\<close>
  | Plus atom           \<comment> \<open>\<open>x+\<close>, greedy\<close>
  | LazyStar atom       \<comment> \<open>\<open>x*?\<close>\<close>
  | Opt re              \<comment> \<open>\<open>(?:r)?\<close>, greedy\<close>
  | Seq re re
  | Alt re re
  | Group nat re        \<comment> \<open>capturing group number \<open>n\<close>\<close>
  | Bol                 \<comment> \<open>\<open>^\<close>: at the beginning of the text\<close>
  | BolM                \<comment> \<open>\<open>^\<close> under \<open>(?m)\<close>: at the beginning of a line\<close>
  | Eol                 \<comment> \<open>\<open>$\<close>: at the end of the text\<close>
  | WordB               \<comment> \<open>\<open>\b\<close>: at an ASCII word boundary\<close>

type_synonym caps = "nat \<rightharpoonup> string"

text \<open>
  A position in the text is the byte before it (\<open>None\<close> at the beginning of the text)
  and the text from it on.
\<close>

type_synonym mstate = "char option \<times> string \<times> caps"

definition step_to :: "nat \<Rightarrow> char option \<Rightarrow> string \<Rightarrow> caps \<Rightarrow> mstate" where
  "step_to n p s c = ((if n = 0 \<or> s = [] then p else Some (last (take n s))), drop n s, c)"

definition is_word :: "char option \<Rightarrow> bool" where
  "is_word p = (case p of None \<Rightarrow> False | Some c \<Rightarrow> c \<in> set wordC)"

definition next_char :: "string \<Rightarrow> char option" where
  "next_char s = (case s of [] \<Rightarrow> None | c # _ \<Rightarrow> Some c)"

text \<open>
  All the ways the expression matches at a position, in the order in which a
  backtracking matcher tries them; the first is the leftmost-first match that Go
  reports.
\<close>

fun rmatch :: "re \<Rightarrow> char option \<Rightarrow> string \<Rightarrow> caps \<Rightarrow> mstate list" where
  "rmatch Emp p s c = [(p, s, c)]"
| "rmatch (Atom a) p s c = (case eat a s of None \<Rightarrow> [] | Some n \<Rightarrow> [step_to n p s c])"
| "rmatch (Star a) p s c = map (\<lambda>n. step_to n p s c) (rev (runs a s))"
| "rmatch (Plus a) p s c = map (\<lambda>n. step_to n p s c) (rev (tl (runs a s)))"
| "rmatch (LazyStar a) p s c = map (\<lambda>n. step_to n p s c) (runs a s)"
| "rmatch (Opt r) p s c = rmatch r p s c @ [(p, s, c)]"
| "rmatch (Seq r1 r2) p s c =
     concat (map (\<lambda>(p', s', c'). rmatch r2 p' s' c') (rmatch r1 p s c))"
| "rmatch (Alt r1 r2) p s c = rmatch r1 p s c @ rmatch r2 p s c"
| "rmatch (Group k r) p s c =
     map (\<lambda>(p', s', c'). (p', s', c'(k \<mapsto> take (length s - length s') s))) (rmatch r p s c)"
| "rmatch Bol p s c = (if p = None then [(p, s, c)] else [])"
| "rmatch BolM p s c = (if p = None \<or> p = Some (CHR 0x0A) then [(p, s, c)] else [])"
| "rmatch Eol p s c = (if s = [] then [(p, s, c)] else [])"
| "rmatch WordB p s c = (if is_word p \<noteq> is_word (next_char s) then [(p, s, c)] else [])"

text \<open>
  The leftmost match at or after a position: the number of bytes skipped before it
  starts, and the state at its end.
\<close>

fun rfind :: "re \<Rightarrow> char option \<Rightarrow> string \<Rightarrow> (nat \<times> mstate) option" where
  "rfind r p [] = (case rmatch r p [] Map.empty of [] \<Rightarrow> None | m # _ \<Rightarrow> Some (0, m))"
| "rfind r p (x # xs) =
     (case rmatch r p (x # xs) Map.empty of
        m # _ \<Rightarrow> Some (0, m)
      | [] \<Rightarrow> map_option (\<lambda>(k, m). (Suc k, m)) (rfind r (Some x) xs))"

text \<open>\<^verbatim>\<open>re.MatchString(line)\<close>.\<close>

definition MatchString :: "re \<Rightarrow> string \<Rightarrow> bool" where
  "MatchString r line = (rfind r None line \<noteq> None)"

text \<open>
  \<^verbatim>\<open>re.FindStringSubmatch(line)\<close>: \<open>None\<close> is Go's \<^verbatim>\<open>nil\<close>; otherwise the
  function gives the text of each group, empty for a group that took no part.
\<close>

definition FindStringSubmatch :: "re \<Rightarrow> string \<Rightarrow> (nat \<Rightarrow> string) option" where
  "FindStringSubmatch r line =
     (case rfind r None line of None \<Rightarrow> None
      | Some (k, (p, s, c)) \<Rightarrow> Some (\<lambda>i. case c i of None \<Rightarrow> [] | Some w \<Rightarrow> w))"

text \<open>
  \<^verbatim>\<open>re.FindStringSubmatch(line)[i]\<close> in a branch guarded by
  \<^verbatim>\<open>re.MatchString(line)\<close>, where the result is never \<^verbatim>\<open>nil\<close>.
\<close>

definition submatch :: "re \<Rightarrow> string \<Rightarrow> nat \<Rightarrow> string" where
  "submatch r line i = (case FindStringSubmatch r line of None \<Rightarrow> [] | Some m \<Rightarrow> m i)"

text \<open>Building expressions: a sequence, a literal, a literal under \<open>(?i)\<close>.\<close>

definition seqs :: "re list \<Rightarrow> re" where
  "seqs rs = foldr Seq rs Emp"

definition lit :: "string \<Rightarrow> re" where
  "lit w = seqs (map (\<lambda>c. Atom (Chr c)) w)"

definition litI :: "string \<Rightarrow> re" where
  "litI w = seqs (map (\<lambda>c. Atom (ChrI c)) w)"

text \<open>\<^verbatim>\<open>strings.Split(text, "\n")\<close>: never empty; the empty text is one empty line.\<close>

fun split_lines :: "string \<Rightarrow> string list" where
  "split_lines [] = [[]]"
| "split_lines (c # cs) =
     (if c = CHR 0x0A then [] # split_lines cs
      else (case split_lines cs of [] \<Rightarrow> [[c]] | l # ls \<Rightarrow> (c # l) # ls))"

section \<open>Integer Normalizer\<close>

text \<open>\<^verbatim>\<open>strings.ReplaceAll(s, ",", "")\<close>.\<close>

definition stripCommas :: "string \<Rightarrow> string" where
  "stripCommas s = filter (\<lambda>c. c \<noteq> CHR '','') s"

text \<open>
  \<^verbatim>\<open>parseInt64\<close>: the loop over the bytes with the accumulator \<open>n\<close> of type
  \<^verbatim>\<open>int64\<close>, whose arithmetic wraps around.
\<close>

definition digit_val :: "char \<Rightarrow> nat" where
  "digit_val c = of_char c - of_char (CHR ''0'')"

definition is_digit :: "char \<Rightarrow> bool" where
  "is_digit c = (\<not> (c < CHR ''0'' \<or> c > CHR ''9''))"

fun parseInt64_loop :: "64 word \<Rightarrow> string \<Rightarrow> 64 word" where
  "parseInt64_loop n [] = n"
| "parseInt64_loop n (c # cs) =
     (if c < CHR ''0'' \<or> c > CHR ''9'' then n
      else parseInt64_loop (n * 10 + of_nat (digit_val c)) cs)"

definition parseInt64 :: "string \<Rightarrow> 64 word" where
  "parseInt64 s = parseInt64_loop 0 s"

text \<open>The number that a string of decimal digits denotes.\<close>

definition dec_value :: "string \<Rightarrow> nat" where
  "dec_value ds = foldl (\<lambda>n c. n * 10 + digit_val c) 0 ds"

section \<open>Library functions of the listing endpoints\<close>

text \<open>
  \<^verbatim>\<open>re.FindAllStringSubmatch(text, -1)\<close> and \<^verbatim>\<open>re.FindAllStringIndex\<close>: the
  successive leftmost matches, each search starting where the match before ended. The
  result lists, for each match, its start and end offsets in the text and its groups.
  \<open>pos\<close> is the offset of the current position and \<open>after\<close> says that the match
  before ended exactly here: Go drops an empty match in that place. After an empty
  match the search moves on by one rune; the expressions of this program match no
  empty string, so that the width of that rune plays no part, and the model moves on
  by one byte.
\<close>

lemma step_to_length: "step_to n p s c = (p', s', c') \<Longrightarrow> length s' \<le> length s"
  by (auto simp: step_to_def)

lemma rmatch_length:
  "(p', s', c') \<in> set (rmatch r p s c) \<Longrightarrow> length s' \<le> length s"
proof (induction r arbitrary: p s c p' s' c')
  case (Seq r1 r2)
  then obtain p1 s1 c1 where a: "(p1, s1, c1) \<in> set (rmatch r1 p s c)"
    and b: "(p', s', c') \<in> set (rmatch r2 p1 s1 c1)"
    by auto
  from Seq.IH(1) [OF a] Seq.IH(2) [OF b] show ?case by simp
next
  case (Atom a)
  then show ?case by (auto split: option.splits dest: step_to_length [OF sym])
next
  case (Star a)
  then show ?case by (auto dest: step_to_length [OF sym])
next
  case (Plus a)
  then show ?case by (auto dest: step_to_length [OF sym])
next
  case (LazyStar a)
  then show ?case by (auto dest: step_to_length [OF sym])
next
  case (Opt r)
  then show ?case by auto
next
  case (Alt r1 r2)
  then show ?case by auto
next
  case (Group k r)
  then show ?case by auto
qed (auto split: if_splits)

lemma rfind_length:
  "rfind r p s = Some (k, (p', s', c')) \<Longrightarrow> k + length s' \<le> length s"
proof (induction s arbitrary: p k)
  case Nil
  then have "(p', s', c') \<in> set (rmatch r p [] Map.empty)"
    by (auto split: list.splits)
  from rmatch_length [OF this] Nil show ?case by (auto split: list.splits)
next
  case (Cons x xs)
  show ?case
  proof (cases "rmatch r p (x # xs) Map.empty")
    case Nil
    with Cons.prems obtain j where j: "rfind r (Some x) xs = Some (j, (p', s', c'))" and k: "k = Suc j"
      by auto
    from Cons.IH [OF j] k show ?thesis by simp
  next
    case (Cons m ms)
    with Cons.prems have "(p', s', c') \<in> set (rmatch r p (x # xs) Map.empty)" and "k = 0"
      by auto
    from rmatch_length [OF this(1)] \<open>k = 0\<close> show ?thesis by simp
  qed
qed

function find_all :: "re \<Rightarrow> nat \<Rightarrow> bool \<Rightarrow> char option \<Rightarrow> string \<Rightarrow> (nat \<times> nat \<times> caps) list" where
  "find_all r pos after p s =
     (case rfind r p s of
        None \<Rightarrow> []
      | Some (k, (p', s', c)) \<Rightarrow>
          if k = 0 \<and> length s' = length s
          then (if after then [] else [(pos, pos, c)]) @
               (case s of [] \<Rightarrow> [] | x # xs \<Rightarrow> find_all r (pos + 1) False (Some x) xs)
          else (pos + k, pos + (length s - length s'), c) # find_all r (pos + (length s - length s')) True p' s')"
  by pat_completeness auto
termination
proof (relation "measure (\<lambda>(r, pos, after, p, s). length s)")
  show "wf (measure (\<lambda>(r, pos, after, p, s). length s))" by simp
next
  fix r :: re and pos :: nat and after :: bool and p :: "char option" and s :: string
    and x :: char and xs :: string
  assume "s = x # xs"
  then show "((r, pos + 1, False, Some x, xs), (r, pos, after, p, s))
      \<in> measure (\<lambda>(r, pos, after, p, s). length s)" by simp
next
  fix r :: re and pos :: nat and after :: bool and p :: "char option" and s :: string
    and x2 :: "nat \<times> mstate" and k :: nat and y :: mstate and p' :: "char option"
    and y2 :: "string \<times> caps" and s' :: string and c :: caps
  assume "rfind r p s = Some x2" "(k, y) = x2" "(p', y2) = y" "(s', c) = y2"
    and ne: "\<not> (k = 0 \<and> length s' = length s)"
  then have "rfind r p s = Some (k, (p', s', c))" by simp
  from rfind_length [OF this] ne
  show "((r, pos + (length s - length s'), True, p', s'), (r, pos, after, p, s))
      \<in> measure (\<lambda>(r, pos, after, p, s). length s)" by auto
qed

declare find_all.simps [simp del]

definition group_text :: "caps \<Rightarrow> nat \<Rightarrow> string" where
  "group_text c i = (case c i of None \<Rightarrow> [] | Some w \<Rightarrow> w)"

text \<open>The first group of every match of \<^verbatim>\<open>re.FindAllStringSubmatch(text, -1)\<close>.\<close>

definition FindAllGroup1 :: "re \<Rightarrow> string \<Rightarrow> string list" where
  "FindAllGroup1 r text = map (\<lambda>(b, e, c). group_text c 1) (find_all r 0 False None text)"

text \<open>
  \<^verbatim>\<open>re.Split(s, -1)\<close>, as the library writes it: the pieces between the matches,
  without the piece before a match that ends at offset 0, and without the last piece when
  the last match starts at the end of the text.
\<close>

definition split_step :: "string \<Rightarrow> nat \<times> nat \<times> caps \<Rightarrow> string list \<times> nat \<times> nat \<Rightarrow> string list \<times> nat \<times> nat" where
  "split_step s m st =
     (case m of (b, e, c) \<Rightarrow> case st of (strings, beg, en) \<Rightarrow>
        ((if e \<noteq> 0 then strings @ [take (b - beg) (drop beg s)] else strings), e, b))"

definition Split :: "re \<Rightarrow> string \<Rightarrow> string list" where
  "Split r s =
     (if s = [] then [[]]
      else case fold (split_step s) (find_all r 0 False None s) ([], 0, 0) of
        (strings, beg, en) \<Rightarrow> if en \<noteq> length s then strings @ [drop beg s] else strings)"

text \<open>
  \<^verbatim>\<open>strings.TrimSpace\<close> removes the leading and the trailing runes that are Unicode
  white space. In UTF-8 these are the six ASCII bytes and the encodings of U+0085, U+00A0,
  U+1680, U+2000 to U+200A, U+2028, U+2029, U+202F, U+205F and U+3000; no encoding is a
  prefix or a suffix of another.
\<close>

definition uspaces :: "string list" where
  "uspaces =
     [[CHR 0x09], [CHR 0x0A], [CHR 0x0B], [CHR 0x0C], [CHR 0x0D], [CHR 0x20],
      [CHR 0xC2, CHR 0x85], [CHR 0xC2, CHR 0xA0], [CHR 0xE1, CHR 0x9A, CHR 0x80],
      [CHR 0xE2, CHR 0x80, CHR 0x80], [CHR 0xE2, CHR 0x80, CHR 0x81],
      [CHR 0xE2, CHR 0x80, CHR 0x82], [CHR 0xE2, CHR 0x80, CHR 0x83],
      [CHR 0xE2, CHR 0x80, CHR 0x84], [CHR 0xE2, CHR 0x80, CHR 0x85],
      [CHR 0xE2, CHR 0x80, CHR 0x86], [CHR 0xE2, CHR 0x80, CHR 0x87],
      [CHR 0xE2, CHR 0x80, CHR 0x88], [CHR 0xE2, CHR 0x80, CHR 0x89],
      [CHR 0xE2, CHR 0x80, CHR 0x8A], [CHR 0xE2, CHR 0x80, CHR 0xA8],
      [CHR 0xE2, CHR 0x80, CHR 0xA9], [CHR 0xE2, CHR 0x80, CHR 0xAF],
      [CHR 0xE2, CHR 0x81, CHR 0x9F], [CHR 0xE3, CHR 0x80, CHR 0x80]]"

text \<open>The width of the first of the given byte sequences that the text starts with.\<close>

fun lead_width :: "string list \<Rightarrow> string \<Rightarrow> nat option" where
  "lead_width [] s = None"
| "lead_width (e # es) s =
     (if e \<noteq> [] \<and> take (length e) s = e then Some (length e) else lead_width es s)"

lemma lead_width_bound: "lead_width es s = Some n \<Longrightarrow> 0 < n \<and> n \<le> length s"
proof (induction es)
  case Nil
  then show ?case by simp
next
  case (Cons e es)
  show ?case
  proof (cases "e \<noteq> [] \<and> take (length e) s = e")
    case True
    then have "length e \<le> length s" using take_full [of "length e" s e] by simp
    with True Cons.prems show ?thesis by auto
  next
    case False
    with Cons show ?thesis by auto
  qed
qed

function trim_lead :: "string list \<Rightarrow> string \<Rightarrow> string" where
  "trim_lead es s = (case lead_width es s of None \<Rightarrow> s | Some n \<Rightarrow> trim_lead es (drop n s))"
  by pat_completeness auto
termination
proof (relation "measure (\<lambda>(es, s). length s)")
  show "wf (measure (\<lambda>(es, s). length s))" by simp
next
  fix es :: "string list" and s :: string and n :: nat
  assume "lead_width es s = Some n"
  then have "0 < n \<and> n \<le> length s" by (rule lead_width_bound)
  then show "((es, drop n s), (es, s)) \<in> measure (\<lambda>(es, s). length s)" by auto
qed

declare trim_lead.simps [simp del]

definition TrimSpace :: "string \<Rightarrow> string" where
  "TrimSpace s = rev (trim_lead (map rev uspaces) (rev (trim_lead uspaces s)))"

text \<open>
  A \<^verbatim>\<open>map[string]struct{}\<close> is a finite set of strings. Collecting its keys and
  \<^verbatim>\<open>sort.Strings\<close> give the keys in ascending byte-wise order, whatever the order in
  which the map is walked.
\<close>

definition sorted_keys :: "string set \<Rightarrow> string list" where
  "sorted_keys names = sorted_list_of_set names"

section \<open>Connection Name Extractor\<close>

abbreviation sp :: atom where "sp \<equiv> Cls spaceC"
abbreviation nm :: atom where "nm \<equiv> Cls nameC"
abbreviation nmI :: atom where "nmI \<equiv> ClsI nameC"
abbreviation dg :: atom where "dg \<equiv> Cls digitC"

text \<open>\<^verbatim>\<open>(?m)^\s+([A-Za-z0-9._:-]+):\s+TUNNEL\b\<close>\<close>

definition reChildTunnel :: re where
  "reChildTunnel = seqs [BolM, Plus sp, Group 1 (Plus nm), lit '':'', Plus sp, lit ''TUNNEL'', WordB]"

text \<open>\<^verbatim>\<open>(?i)\bchildren:\s*(.+)$\<close>\<close>

definition reChildren :: re where
  "reChildren = seqs [WordB, litI ''children:'', Star sp, Group 1 (Plus Dot), Eol]"

text \<open>\<^verbatim>\<open>[,\s]+\<close>\<close>

definition reListSep :: re where
  "reListSep = Plus (Cls (CHR '','' # spaceC))"

text \<open>\<^verbatim>\<open>(?i)^\s*child\s+([A-Za-z0-9._:-]+)\b\<close>\<close>

definition reChildLine :: re where
  "reChildLine = seqs [Bol, Star sp, litI ''child'', Plus sp, Group 1 (Plus nmI), WordB]"

text \<open>The tokens of one \<^verbatim>\<open>children:\<close> line: trimmed, the empty ones dropped.\<close>

definition children_tokens :: "string \<Rightarrow> string list" where
  "children_tokens line =
     (case FindStringSubmatch reChildren line of
        None \<Rightarrow> []
      | Some m \<Rightarrow> filter (\<lambda>tok. tok \<noteq> []) (map TrimSpace (Split reListSep (m 1))))"

definition child_line_names :: "string \<Rightarrow> string list" where
  "child_line_names line =
     (case FindStringSubmatch reChildLine line of None \<Rightarrow> [] | Some m \<Rightarrow> [m 1])"

definition parseChildrenFromListConns :: "string \<Rightarrow> string list" where
  "parseChildrenFromListConns text =
     FindAllGroup1 reChildTunnel text
     @ concat (map children_tokens (split_lines text))
     @ concat (map child_line_names (split_lines text))"

text \<open>
  The three expressions of \<^verbatim>\<open>parseChildrenFromListSas\<close>:
  \<^verbatim>\<open>(?m)^\s*(?:child\s+)?([A-Za-z0-9._:-]+)\{\d+\}:?\<close>,
  \<^verbatim>\<open>(?m)^\s*CHILD_SA\s+([A-Za-z0-9._:-]+)\{\d+\}\b\<close> and
  \<^verbatim>\<open>(?m)^\s*child\s+'([^']+)'\<close>.
\<close>

definition sas_reBrace :: re where
  "sas_reBrace = seqs [BolM, Star sp, Opt (seqs [lit ''child'', Plus sp]), Group 1 (Plus nm),
     lit ''{'', Plus dg, lit ''}'', Opt (lit '':'')]"

definition sas_reChildSa :: re where
  "sas_reChildSa = seqs [BolM, Star sp, lit ''CHILD_SA'', Plus sp, Group 1 (Plus nm),
     lit ''{'', Plus dg, lit ''}'', WordB]"

definition sas_reQuoted :: re where
  "sas_reQuoted = seqs [BolM, Star sp, lit ''child'', Plus sp, lit [CHR 0x27],
     Group 1 (Plus (NotCls [CHR 0x27])), lit [CHR 0x27]]"

definition parseChildrenFromListSas :: "string \<Rightarrow> string list" where
  "parseChildrenFromListSas text =
     FindAllGroup1 sas_reBrace text @ FindAllGroup1 sas_reChildSa text @ FindAllGroup1 sas_reQuoted text"

text \<open>
  \<^verbatim>\<open>childrenJSONHandler\<close> as a function of the outputs of the two commands (their
  errors are dropped by the handler): the list that it encodes.
\<close>

definition uniq_names :: "string list \<Rightarrow> string set" where
  "uniq_names names =
     fold (\<lambda>n uniq. if TrimSpace n \<noteq> [] then insert (TrimSpace n) uniq else uniq) names {}"

definition childrenJSONHandler :: "string \<Rightarrow> string \<Rightarrow> string list" where
  "childrenJSONHandler connsOut sasOut =
     (let names = parseChildrenFromListConns connsOut;
          names = (if length names = 0 then parseChildrenFromListSas sasOut else names)
      in sorted_keys (uniq_names names))"

section \<open>Active Connection Extractor\<close>

text \<open>
  The seven expressions of \<^verbatim>\<open>parseActiveChildrenFromListSas\<close>, all under \<open>(?i)\<close>:
  \<^verbatim>\<open>^\s*(?:child\s+)?([A-Za-z0-9._:-]+)\{\d+\}:\<close>,
  \<^verbatim>\<open>^\s*CHILD_SA\s+([A-Za-z0-9._:-]+)\{\d+\}\b\<close>,
  \<^verbatim>\<open>^\s*child\s+'([^']+)'\<close>,
  \<^verbatim>\<open>^\s*(?:child\s+)?([A-Za-z0-9._:-]+):\s+INSTALLED\b\<close>,
  \<^verbatim>\<open>\binstalled\s+CHILD_SA\s+'([^']+)'\<close>,
  \<^verbatim>\<open>^\s*(?:child\s+)?([A-Za-z0-9._:-]+):\s*(?:TUNNEL|ESP|ROUTED|ESTABLISHED)\b\<close> and
  \<^verbatim>\<open>^\s*([A-Za-z0-9._:-]+):\s*#\d+,\s.*\bESP:\<close>.
\<close>

definition act_reBrace :: re where
  "act_reBrace = seqs [Bol, Star sp, Opt (seqs [litI ''child'', Plus sp]), Group 1 (Plus nmI),
     litI ''{'', Plus dg, litI ''}:'']"

definition act_reChildSa :: re where
  "act_reChildSa = seqs [Bol, Star sp, litI ''CHILD_SA'', Plus sp, Group 1 (Plus nmI),
     litI ''{'', Plus dg, litI ''}'', WordB]"

definition act_reQuoted :: re where
  "act_reQuoted = seqs [Bol, Star sp, litI ''child'', Plus sp, litI [CHR 0x27],
     Group 1 (Plus (NotCls [CHR 0x27])), litI [CHR 0x27]]"

definition act_reInstalled :: re where
  "act_reInstalled = seqs [Bol, Star sp, Opt (seqs [litI ''child'', Plus sp]), Group 1 (Plus nmI),
     litI '':'', Plus sp, litI ''INSTALLED'', WordB]"

definition act_reInstalledLog :: re where
  "act_reInstalledLog = seqs [WordB, litI ''installed'', Plus sp, litI ''CHILD_SA'', Plus sp,
     litI [CHR 0x27], Group 1 (Plus (NotCls [CHR 0x27])), litI [CHR 0x27]]"

definition act_reTolerantHeader :: re where
  "act_reTolerantHeader = seqs [Bol, Star sp, Opt (seqs [litI ''child'', Plus sp]),
     Group 1 (Plus nmI), litI '':'', Star sp,
     Alt (litI ''TUNNEL'') (Alt (litI ''ESP'') (Alt (litI ''ROUTED'') (litI ''ESTABLISHED''))),
     WordB]"

definition act_reChildHashESP :: re where
  "act_reChildHashESP = seqs [Bol, Star sp, Group 1 (Plus nmI), litI '':'', Star sp, litI ''#'',
     Plus dg, litI '','', Atom sp, Star Dot, WordB, litI ''ESP:'']"

text \<open>One turn of the loop over the lines: the \<^verbatim>\<open>switch\<close> takes the first case that holds.\<close>

definition active_line :: "string \<Rightarrow> string set \<Rightarrow> string set" where
  "active_line line names =
     (if MatchString act_reBrace line then insert (submatch act_reBrace line 1) names
      else if MatchString act_reChildSa line then insert (submatch act_reChildSa line 1) names
      else if MatchString act_reQuoted line then insert (submatch act_reQuoted line 1) names
      else if MatchString act_reInstalled line then insert (submatch act_reInstalled line 1) names
      else if MatchString act_reInstalledLog line then insert (submatch act_reInstalledLog line 1) names
      else if MatchString act_reChildHashESP line then insert (submatch act_reChildHashESP line 1) names
      else if MatchString act_reTolerantHeader line then insert (submatch act_reTolerantHeader line 1) names
      else names)"

definition parseActiveChildrenFromListSas :: "string \<Rightarrow> string list" where
  "parseActiveChildrenFromListSas text = sorted_keys (fold active_line (split_lines text) {})"

section \<open>Status Aggregator\<close>

record ChildStats =
  Active :: bool
  InBytes :: "64 word"
  OutBytes :: "64 word"
  InPkts :: "64 word"
  OutPkts :: "64 word"

text \<open>Reading a key that a Go map does not hold gives the zero value of the struct.\<close>

definition zeroStats :: ChildStats where
  "zeroStats = \<lparr>Active = False, InBytes = 0, OutBytes = 0, InPkts = 0, OutPkts = 0\<rparr>"

definition lookup :: "(string \<rightharpoonup> ChildStats) \<Rightarrow> string \<Rightarrow> ChildStats" where
  "lookup stats k = (case stats k of None \<Rightarrow> zeroStats | Some st \<Rightarrow> st)"

text \<open>
  The header expressions:
  \<^verbatim>\<open>^\s*(?:child\s+)?([A-Za-z0-9._:-]+)\{\d+\}:?\<close>,
  \<^verbatim>\<open>^\s*CHILD_SA\s+([A-Za-z0-9._:-]+)\{\d+\}\b\<close>,
  \<^verbatim>\<open>^\s*child\s+'([^']+)'\<close> and
  \<^verbatim>\<open>^\s*([A-Za-z0-9._:-]+):\s*#\d+,\s.*\bESP:\<close>.
\<close>

definition reHeaderBrace :: re where
  "reHeaderBrace = seqs [Bol, Star sp, Opt (seqs [lit ''child'', Plus sp]), Group 1 (Plus nm),
     lit ''{'', Plus dg, lit ''}'', Opt (lit '':'')]"

definition reHeaderChildSA :: re where
  "reHeaderChildSA = seqs [Bol, Star sp, lit ''CHILD_SA'', Plus sp, Group 1 (Plus nm),
     lit ''{'', Plus dg, lit ''}'', WordB]"

definition reHeaderQuoted :: re where
  "reHeaderQuoted = seqs [Bol, Star sp, lit ''child'', Plus sp, lit [CHR 0x27],
     Group 1 (Plus (NotCls [CHR 0x27])), lit [CHR 0x27]]"

definition reHeaderHashESP :: re where
  "reHeaderHashESP = seqs [Bol, Star sp, Group 1 (Plus nm), lit '':'', Star sp, lit ''#'',
     Plus dg, lit '','', Atom sp, Star Dot, WordB, lit ''ESP:'']"

text \<open>
  The counter expressions, for the direction \<open>d\<close> (\<^verbatim>\<open>in\<close> or \<^verbatim>\<open>out\<close>):
  \<^verbatim>\<open>^\s*d:\s*([\d,]+)\s*bytes,\s*([\d,]+)\s*packets\<close>,
  \<^verbatim>\<open>^\s*d:.*?\bbytes\s+([\d,]+).*?\bpackets\s+([\d,]+)\<close>,
  \<^verbatim>\<open>^\s*d\s+[0-9A-Fa-fx]+,\s*([\d,]+)\s*bytes,\s*([\d,]+)\s*packets\<close> and
  \<^verbatim>\<open>^\s*d\b.*?\bbytes\s+([\d,]+).*?\bpackets\s+([\d,]+)\<close>.
\<close>

abbreviation dc :: atom where "dc \<equiv> Cls (digitC @ '','')"

definition rePrimary :: "string \<Rightarrow> re" where
  "rePrimary d = seqs [Bol, Star sp, lit d, lit '':'', Star sp, Group 1 (Plus dc), Star sp,
     lit ''bytes,'', Star sp, Group 2 (Plus dc), Star sp, lit ''packets'']"

definition reAlt :: "string \<Rightarrow> re" where
  "reAlt d = seqs [Bol, Star sp, lit d, lit '':'', LazyStar Dot, WordB, lit ''bytes'', Plus sp,
     Group 1 (Plus dc), LazyStar Dot, WordB, lit ''packets'', Plus sp, Group 2 (Plus dc)]"

definition reSPI :: "string \<Rightarrow> re" where
  "reSPI d = seqs [Bol, Star sp, lit d, Plus sp, Plus (Cls (digitC @ ''ABCDEFabcdefx'')), lit '','',
     Star sp, Group 1 (Plus dc), Star sp, lit ''bytes,'', Star sp, Group 2 (Plus dc), Star sp,
     lit ''packets'']"

definition reNoColon :: "string \<Rightarrow> re" where
  "reNoColon d = seqs [Bol, Star sp, lit d, WordB, LazyStar Dot, WordB, lit ''bytes'', Plus sp,
     Group 1 (Plus dc), LazyStar Dot, WordB, lit ''packets'', Plus sp, Group 2 (Plus dc)]"

definition reInPrimary :: re where "reInPrimary = rePrimary ''in''"
definition reOutPrimary :: re where "reOutPrimary = rePrimary ''out''"
definition reInAlt :: re where "reInAlt = reAlt ''in''"
definition reOutAlt :: re where "reOutAlt = reAlt ''out''"
definition reInSPI :: re where "reInSPI = reSPI ''in''"
definition reOutSPI :: re where "reOutSPI = reSPI ''out''"
definition reInNoColon :: re where "reInNoColon = reNoColon ''in''"
definition reOutNoColon :: re where "reOutNoColon = reNoColon ''out''"

text \<open>The state of the loop: \<^verbatim>\<open>current\<close> and \<^verbatim>\<open>stats\<close>.\<close>

type_synonym pstate = "string \<times> (string \<rightharpoonup> ChildStats)"

text \<open>The body shared by the four header cases, with the captured name.\<close>

definition header :: "string \<Rightarrow> (string \<rightharpoonup> ChildStats) \<Rightarrow> pstate" where
  "header name stats = (name, stats(name \<mapsto> (lookup stats name)\<lparr>Active := True\<rparr>))"

text \<open>The bodies shared by the inbound and by the outbound counter cases.\<close>

definition set_in :: "re \<Rightarrow> string \<Rightarrow> pstate \<Rightarrow> pstate" where
  "set_in r line st =
     (case st of (current, stats) \<Rightarrow>
        (current, stats(current \<mapsto> (lookup stats current)
           \<lparr>InBytes := parseInt64 (stripCommas (submatch r line 1)),
            InPkts := parseInt64 (stripCommas (submatch r line 2))\<rparr>)))"

definition set_out :: "re \<Rightarrow> string \<Rightarrow> pstate \<Rightarrow> pstate" where
  "set_out r line st =
     (case st of (current, stats) \<Rightarrow>
        (current, stats(current \<mapsto> (lookup stats current)
           \<lparr>OutBytes := parseInt64 (stripCommas (submatch r line 1)),
            OutPkts := parseInt64 (stripCommas (submatch r line 2))\<rparr>)))"

definition counters :: "string \<Rightarrow> pstate \<Rightarrow> pstate" where
  "counters line st =
     (if MatchString reInSPI line then set_in reInSPI line st
      else if MatchString reOutSPI line then set_out reOutSPI line st
      else if MatchString reInPrimary line then set_in reInPrimary line st
      else if MatchString reOutPrimary line then set_out reOutPrimary line st
      else if MatchString reInAlt line then set_in reInAlt line st
      else if MatchString reOutAlt line then set_out reOutAlt line st
      else if MatchString reInNoColon line then set_in reInNoColon line st
      else if MatchString reOutNoColon line then set_out reOutNoColon line st
      else st)"

text \<open>One turn of the loop over the lines.\<close>

definition stats_line :: "string \<Rightarrow> pstate \<Rightarrow> pstate" where
  "stats_line line st =
     (if MatchString reHeaderHashESP line then header (submatch reHeaderHashESP line 1) (snd st)
      else if MatchString reHeaderBrace line then header (submatch reHeaderBrace line 1) (snd st)
      else if MatchString reHeaderChildSA line then header (submatch reHeaderChildSA line 1) (snd st)
      else if MatchString reHeaderQuoted line then header (submatch reHeaderQuoted line 1) (snd st)
      else if fst st = [] then st
      else counters line st)"

definition parseStatusToStats :: "string \<Rightarrow> (string \<rightharpoonup> ChildStats)" where
  "parseStatusToStats text = snd (fold stats_line (split_lines text) ([], Map.empty))"

section \<open>Properties of the Integer Normalizer\<close>

lemma parseInt64_loop_value:
  "parseInt64_loop (of_nat m) s =
     of_nat (foldl (\<lambda>n c. n * 10 + digit_val c) m (takeWhile is_digit s))"
proof (induction s arbitrary: m)
  case Nil
  show ?case by simp
next
  case (Cons c cs)
  show ?case
  proof (cases "is_digit c")
    case True
    have e: "(of_nat m * 10 + of_nat (digit_val c) :: 64 word) = of_nat (m * 10 + digit_val c)"
      by simp
    have "parseInt64_loop (of_nat m) (c # cs) = parseInt64_loop (of_nat (m * 10 + digit_val c)) cs"
      using True unfolding is_digit_def by (simp only: parseInt64_loop.simps e if_False)
    also have "\<dots> = of_nat (foldl (\<lambda>n c. n * 10 + digit_val c) (m * 10 + digit_val c)
        (takeWhile is_digit cs))"
      by (rule Cons.IH)
    finally show ?thesis using True by simp
  next
    case False
    then show ?thesis by (auto simp: is_digit_def)
  qed
qed

lemma parseInt64_value: "parseInt64 s = of_nat (dec_value (takeWhile is_digit s))"
  using parseInt64_loop_value [of 0 s] by (simp add: parseInt64_def dec_value_def)

lemma sint_small: "v < 2 ^ 63 \<Longrightarrow> sint (of_nat v :: 64 word) = int v"
proof -
  assume "v < 2 ^ 63"
  then have "int v < 2 ^ 63" by (metis of_nat_less_iff of_nat_numeral of_nat_power)
  moreover have "- (2 ^ 63) \<le> int v" by simp
  ultimately have "signed_take_bit 63 (int v) = int v"
    by (rule signed_take_bit_int_eq_self [rotated])
  then show ?thesis by (simp add: signed_of_nat)
qed

lemma takeWhile_no_digit: "\<forall>c\<in>set s. \<not> is_digit c \<Longrightarrow> takeWhile is_digit s = []"
  by (cases s) auto

lemma normalizer_examples:
  "parseInt64 (stripCommas ''1,234,567'') = 1234567"
  "parseInt64 (stripCommas ''0'') = 0"
  "parseInt64 (stripCommas '''') = 0"
  "parseInt64 (stripCommas ''12abc'') = 12"
  by (simp_all add: parseInt64_def stripCommas_def digit_val_def)

text \<open>
  C9, as the claim states it, fails once the digits denote a number beyond the range of
  \<^verbatim>\<open>int64\<close>: on \<open>9223372036854775808\<close> (that is \<open>2^63\<close>) the accumulator has
  wrapped around and the function returns \<open>-2^63\<close>, not the value of the digit prefix.
\<close>

theorem parseInt64_value_counterexample:
  "sint (parseInt64 (stripCommas ''9223372036854775808''))
     \<noteq> int (dec_value (takeWhile is_digit (stripCommas ''9223372036854775808'')))"
  by (simp add: parseInt64_def stripCommas_def is_digit_def digit_val_def dec_value_def)

text \<open>
  C9, amended: the Integer Normalizer strips every comma, then returns the value of the
  longest digit prefix of the result reduced to 64 bits (two's complement, wrapping
  around without an error); this is the value itself whenever the value is below
  \<open>2^63\<close>. It returns zero when the input has no digit at all, and it maps
  \<open>1,234,567\<close> to 1234567, \<open>0\<close> to 0, the empty string to 0 and \<open>12abc\<close> to 12.
\<close>

theorem parseInt64_stripCommas_value:
  "CHR '','' \<notin> set (stripCommas s)
   \<and> parseInt64 (stripCommas s) = of_nat (dec_value (takeWhile is_digit (stripCommas s)))
   \<and> (dec_value (takeWhile is_digit (stripCommas s)) < 2 ^ 63 \<longrightarrow>
        sint (parseInt64 (stripCommas s)) = int (dec_value (takeWhile is_digit (stripCommas s))))
   \<and> ((\<forall>c\<in>set (stripCommas s). \<not> is_digit c) \<longrightarrow> parseInt64 (stripCommas s) = 0)
   \<and> parseInt64 (stripCommas ''1,234,567'') = 1234567
   \<and> parseInt64 (stripCommas ''0'') = 0
   \<and> parseInt64 (stripCommas '''') = 0
   \<and> parseInt64 (stripCommas ''12abc'') = 12"
proof -
  have a: "CHR '','' \<notin> set (stripCommas s)"
    by (simp add: stripCommas_def)
  have b: "parseInt64 (stripCommas s) = of_nat (dec_value (takeWhile is_digit (stripCommas s)))"
    by (rule parseInt64_value)
  have c: "sint (parseInt64 (stripCommas s)) = int (dec_value (takeWhile is_digit (stripCommas s)))"
    if "dec_value (takeWhile is_digit (stripCommas s)) < 2 ^ 63"
    using that by (simp only: b sint_small)
  have d: "parseInt64 (stripCommas s) = 0" if "\<forall>c\<in>set (stripCommas s). \<not> is_digit c"
    using takeWhile_no_digit [OF that] by (simp add: b dec_value_def)
  from a b c d normalizer_examples show ?thesis by blast
qed

theorem parseInt64_stripCommas_value_witness:
  "dec_value (takeWhile is_digit (stripCommas ''1,234,567'')) < 2 ^ 63
   \<and> sint (parseInt64 (stripCommas ''1,234,567'')) = 1234567
   \<and> list_all (\<lambda>c. \<not> is_digit c) (stripCommas ''a,bc'')
   \<and> parseInt64 (stripCommas ''a,bc'') = 0"
proof -
  have v: "dec_value (takeWhile is_digit (stripCommas ''1,234,567'')) = 1234567"
    by (simp add: dec_value_def stripCommas_def is_digit_def digit_val_def)
  have n: "\<forall>c\<in>set (stripCommas ''a,bc''). \<not> is_digit c"
    by (simp add: stripCommas_def is_digit_def)
  from parseInt64_stripCommas_value [of "''1,234,567''"] v
  have "sint (parseInt64 (stripCommas ''1,234,567'')) = 1234567" by simp
  moreover from parseInt64_stripCommas_value [of "''a,bc''"] n
  have "parseInt64 (stripCommas ''a,bc'') = 0" by blast
  ultimately show ?thesis using v n by (simp add: list_all_iff)
qed

section \<open>Precedence among patterns\<close>

text \<open>
  The reading of a \<^verbatim>\<open>switch\<close> over patterns that the specification gives: the
  patterns form an ordered list, and a line yields the first group of the earliest
  pattern of the list that matches it.
\<close>

fun first_capture :: "re list \<Rightarrow> string \<Rightarrow> string option" where
  "first_capture [] line = None"
| "first_capture (r # rs) line =
     (if MatchString r line then Some (submatch r line 1) else first_capture rs line)"

definition header_pats :: "re list" where
  "header_pats = [reHeaderHashESP, reHeaderBrace, reHeaderChildSA, reHeaderQuoted]"

definition active_pats :: "re list" where
  "active_pats = [act_reBrace, act_reChildSa, act_reQuoted, act_reInstalled,
     act_reInstalledLog, act_reChildHashESP, act_reTolerantHeader]"

definition counter_pats :: "re list" where
  "counter_pats = [reInSPI, reOutSPI, reInPrimary, reOutPrimary, reInAlt, reOutAlt,
     reInNoColon, reOutNoColon]"

definition header_name :: "string \<Rightarrow> string option" where
  "header_name line = first_capture header_pats line"

definition active_name :: "string \<Rightarrow> string option" where
  "active_name line = first_capture active_pats line"

definition is_counter :: "string \<Rightarrow> bool" where
  "is_counter line = list_ex (\<lambda>r. MatchString r line) counter_pats"

text \<open>The record that a header creates for a name not seen before.\<close>

definition freshStats :: ChildStats where
  "freshStats = \<lparr>Active = True, InBytes = 0, OutBytes = 0, InPkts = 0, OutPkts = 0\<rparr>"

text \<open>The state of the Status Aggregator after a list of lines.\<close>

definition run :: "string list \<Rightarrow> pstate" where
  "run ls = fold stats_line ls ([], Map.empty)"

lemma first_capture_index:
  "first_capture rs line = Some n \<longleftrightarrow>
     (\<exists>i<length rs. MatchString (rs ! i) line \<and> (\<forall>j<i. \<not> MatchString (rs ! j) line)
        \<and> n = submatch (rs ! i) line 1)"
proof (induction rs)
  case Nil
  show ?case by simp
next
  case (Cons r rs)
  show ?case
  proof (cases "MatchString r line")
    case True
    have "(\<exists>i<length (r # rs). MatchString ((r # rs) ! i) line
           \<and> (\<forall>j<i. \<not> MatchString ((r # rs) ! j) line) \<and> n = submatch ((r # rs) ! i) line 1)
          \<longleftrightarrow> n = submatch r line 1"
    proof
      assume "\<exists>i<length (r # rs). MatchString ((r # rs) ! i) line
           \<and> (\<forall>j<i. \<not> MatchString ((r # rs) ! j) line) \<and> n = submatch ((r # rs) ! i) line 1"
      then obtain i where i: "MatchString ((r # rs) ! i) line"
        "\<forall>j<i. \<not> MatchString ((r # rs) ! j) line" "n = submatch ((r # rs) ! i) line 1"
        by blast
      have "i = 0"
      proof (rule ccontr)
        assume "i \<noteq> 0"
        then have "0 < i" by simp
        with i(2) have "\<not> MatchString ((r # rs) ! 0) line" by blast
        with True show False by simp
      qed
      with i(3) show "n = submatch r line 1" by simp
    next
      assume "n = submatch r line 1"
      with True have "MatchString ((r # rs) ! 0) line \<and> (\<forall>j<0. \<not> MatchString ((r # rs) ! j) line)
          \<and> n = submatch ((r # rs) ! 0) line 1" by simp
      then show "\<exists>i<length (r # rs). MatchString ((r # rs) ! i) line
           \<and> (\<forall>j<i. \<not> MatchString ((r # rs) ! j) line) \<and> n = submatch ((r # rs) ! i) line 1"
        by blast
    qed
    with True show ?thesis by auto
  next
    case False
    have "(\<exists>i<length (r # rs). MatchString ((r # rs) ! i) line
           \<and> (\<forall>j<i. \<not> MatchString ((r # rs) ! j) line) \<and> n = submatch ((r # rs) ! i) line 1)
          \<longleftrightarrow> (\<exists>i<length rs. MatchString (rs ! i) line
           \<and> (\<forall>j<i. \<not> MatchString (rs ! j) line) \<and> n = submatch (rs ! i) line 1)"
      (is "?L \<longleftrightarrow> ?R")
    proof
      assume ?L
      then obtain i where i: "i < length (r # rs)" "MatchString ((r # rs) ! i) line"
        "\<forall>j<i. \<not> MatchString ((r # rs) ! j) line" "n = submatch ((r # rs) ! i) line 1"
        by blast
      from i(2) False obtain k where k: "i = Suc k" by (cases i) auto
      have "\<forall>j<k. \<not> MatchString (rs ! j) line"
      proof (intro allI impI)
        fix j assume "j < k"
        then have "Suc j < i" using k by simp
        with i(3) have "\<not> MatchString ((r # rs) ! Suc j) line" by blast
        then show "\<not> MatchString (rs ! j) line" by simp
      qed
      with i k show ?R by auto
    next
      assume ?R
      then obtain k where k: "k < length rs" "MatchString (rs ! k) line"
        "\<forall>j<k. \<not> MatchString (rs ! j) line" "n = submatch (rs ! k) line 1"
        by blast
      have "\<forall>j<Suc k. \<not> MatchString ((r # rs) ! j) line"
      proof (intro allI impI)
        fix j assume "j < Suc k"
        then show "\<not> MatchString ((r # rs) ! j) line"
          using False k(3) by (cases j) auto
      qed
      with k have "Suc k < length (r # rs) \<and> MatchString ((r # rs) ! Suc k) line
          \<and> (\<forall>j<Suc k. \<not> MatchString ((r # rs) ! j) line)
          \<and> n = submatch ((r # rs) ! Suc k) line 1" by simp
      then show ?L by blast
    qed
    with False Cons.IH show ?thesis by simp
  qed
qed

lemma first_capture_None:
  "first_capture rs line = None \<longleftrightarrow> (\<forall>r\<in>set rs. \<not> MatchString r line)"
  by (induction rs) auto

section \<open>The loop of the Status Aggregator\<close>

lemma stats_line_header:
  "header_name line = Some n \<Longrightarrow> stats_line line st = header n (snd st)"
  by (auto simp: header_name_def header_pats_def stats_line_def split: if_splits)

lemma stats_line_other:
  "header_name line = None \<Longrightarrow>
     stats_line line st = (if fst st = [] then st else counters line st)"
  by (auto simp: header_name_def header_pats_def stats_line_def split: if_splits)

lemma set_in_shape:
  "\<exists>r'. set_in r line (cur, stats) = (cur, stats(cur \<mapsto> r'))
     \<and> Active r' = Active (lookup stats cur)"
proof -
  let ?x = "(lookup stats cur)\<lparr>InBytes := parseInt64 (stripCommas (submatch r line 1)),
    InPkts := parseInt64 (stripCommas (submatch r line 2))\<rparr>"
  have "set_in r line (cur, stats) = (cur, stats(cur \<mapsto> ?x))" by (simp add: set_in_def)
  moreover have "Active ?x = Active (lookup stats cur)" by simp
  ultimately show ?thesis by blast
qed

lemma set_out_shape:
  "\<exists>r'. set_out r line (cur, stats) = (cur, stats(cur \<mapsto> r'))
     \<and> Active r' = Active (lookup stats cur)"
proof -
  let ?x = "(lookup stats cur)\<lparr>OutBytes := parseInt64 (stripCommas (submatch r line 1)),
    OutPkts := parseInt64 (stripCommas (submatch r line 2))\<rparr>"
  have "set_out r line (cur, stats) = (cur, stats(cur \<mapsto> ?x))" by (simp add: set_out_def)
  moreover have "Active ?x = Active (lookup stats cur)" by simp
  ultimately show ?thesis by blast
qed

lemma counters_cases:
  "counters line (cur, stats) = (cur, stats) \<or>
   (\<exists>r. counters line (cur, stats) = (cur, stats(cur \<mapsto> r)) \<and> Active r = Active (lookup stats cur))"
proof -
  have "counters line (cur, stats) = (cur, stats)
      \<or> (\<exists>r. counters line (cur, stats) = set_in r line (cur, stats))
      \<or> (\<exists>r. counters line (cur, stats) = set_out r line (cur, stats))"
    unfolding counters_def by (simp only: split: if_split) blast
  then show ?thesis
  proof (elim disjE exE)
    fix r assume "counters line (cur, stats) = set_in r line (cur, stats)"
    with set_in_shape [of r line cur stats] show ?thesis by auto
  next
    fix r assume "counters line (cur, stats) = set_out r line (cur, stats)"
    with set_out_shape [of r line cur stats] show ?thesis by auto
  qed simp
qed

lemma counters_not_counter:
  "\<not> is_counter line \<Longrightarrow> counters line st = st"
  by (simp add: is_counter_def counter_pats_def counters_def)

text \<open>
  What holds of the state throughout the loop: \<^verbatim>\<open>current\<close> is empty or a key of the
  map, and every record of the map is active.
\<close>

definition inv :: "pstate \<Rightarrow> bool" where
  "inv st = ((fst st = [] \<or> fst st \<in> dom (snd st)) \<and> (\<forall>k r. snd st k = Some r \<longrightarrow> Active r))"

lemma inv_stats_line: "inv st \<Longrightarrow> inv (stats_line line st)"
proof (cases "header_name line")
  case (Some n)
  assume "inv st"
  then show ?thesis
    by (auto simp: stats_line_header [OF Some] header_def inv_def)
next
  case None
  assume i: "inv st"
  obtain cur stats where st: "st = (cur, stats)" by (cases st)
  show ?thesis
  proof (cases "cur = []")
    case True
    with i st None show ?thesis by (simp add: stats_line_other)
  next
    case False
    with i st have d: "cur \<in> dom stats" by (simp add: inv_def)
    then obtain r0 where r0: "stats cur = Some r0" by blast
    with i st have a0: "Active r0" by (simp add: inv_def)
    from counters_cases [of line cur stats] show ?thesis
    proof
      assume "counters line (cur, stats) = (cur, stats)"
      with i st None False show ?thesis by (simp add: stats_line_other)
    next
      assume "\<exists>r. counters line (cur, stats) = (cur, stats(cur \<mapsto> r))
          \<and> Active r = Active (lookup stats cur)"
      then obtain r where r: "counters line (cur, stats) = (cur, stats(cur \<mapsto> r))"
        and a: "Active r = Active (lookup stats cur)" by blast
      from a r0 a0 have "Active r" by (simp add: lookup_def)
      with i st have "inv (cur, stats(cur \<mapsto> r))"
        unfolding inv_def by simp
      with st None False r show ?thesis
        by (simp add: stats_line_other)
    qed
  qed
qed

lemma inv_fold: "inv st \<Longrightarrow> inv (fold stats_line ls st)"
  by (induction ls arbitrary: st) (simp_all add: inv_stats_line)

lemma inv_run: "inv (run ls)"
  unfolding run_def by (rule inv_fold) (simp add: inv_def)

lemma dom_stats_line:
  "inv st \<Longrightarrow> dom (snd (stats_line line st)) = dom (snd st) \<union> (case header_name line of None \<Rightarrow> {} | Some n \<Rightarrow> {n})"
proof (cases "header_name line")
  case (Some n)
  then show ?thesis by (simp add: stats_line_header [OF Some] header_def)
next
  case None
  assume i: "inv st"
  obtain cur stats where st: "st = (cur, stats)" by (cases st)
  show ?thesis
  proof (cases "cur = []")
    case True
    with st None show ?thesis by (simp add: stats_line_other)
  next
    case False
    with i st have d: "cur \<in> dom stats" by (simp add: inv_def)
    have "dom (snd (counters line (cur, stats))) = dom stats"
      using counters_cases [of line cur stats]
    proof
      assume "counters line (cur, stats) = (cur, stats)"
      then show ?thesis by simp
    next
      assume "\<exists>r. counters line (cur, stats) = (cur, stats(cur \<mapsto> r))
          \<and> Active r = Active (lookup stats cur)"
      then obtain r where "counters line (cur, stats) = (cur, stats(cur \<mapsto> r))" by blast
      then have "dom (snd (counters line (cur, stats))) = insert cur (dom stats)" by simp
      with d show ?thesis by (simp add: insert_absorb)
    qed
    with st None False show ?thesis by (simp add: stats_line_other)
  qed
qed

lemma dom_fold:
  "inv st \<Longrightarrow>
     dom (snd (fold stats_line ls st)) = dom (snd st) \<union> {n. \<exists>l\<in>set ls. header_name l = Some n}"
proof (induction ls arbitrary: st)
  case Nil
  show ?case by simp
next
  case (Cons l ls)
  from Cons.prems have "inv (stats_line l st)" by (rule inv_stats_line)
  from Cons.IH [OF this] dom_stats_line [OF Cons.prems, of l]
  show ?case by (cases "header_name l") auto
qed

lemma dom_parseStatusToStats:
  "dom (parseStatusToStats text) = {n. \<exists>l\<in>set (split_lines text). header_name l = Some n}"
proof -
  have "inv ([], Map.empty)" by (simp add: inv_def)
  from dom_fold [OF this] show ?thesis by (simp add: parseStatusToStats_def)
qed

section \<open>Claims about the Status Aggregator\<close>

text \<open>Texts used as concrete inputs.\<close>

definition nl :: string where
  "nl = [CHR 0x0A]"

definition quote :: string where
  "quote = [CHR 0x27]"

definition two_headers :: string where
  "two_headers = ''a{1}:'' @ nl @ ''in: 5 bytes, 6 packets'' @ nl @ ''b{2}:''"

lemma brace_line_facts:
  "MatchString reHeaderBrace ''t1{2}:''"
  "\<not> MatchString reHeaderHashESP ''t1{2}:''"
  "submatch reHeaderBrace ''t1{2}:'' 1 = ''t1''"
  by code_simp+

text \<open>
  C6: the header patterns are tried in the order hash-ESP, brace, \<^verbatim>\<open>CHILD_SA\<close>,
  quoted, and the first that matches the line gives the current connection: if the
  pattern at position \<open>i\<close> of that list matches and none before it does, then after
  the line \<^verbatim>\<open>current\<close> is the name that this pattern captures.
\<close>

theorem header_first_match_wins:
  assumes "i < length header_pats"
    and "MatchString (header_pats ! i) line"
    and "\<forall>j<i. \<not> MatchString (header_pats ! j) line"
  shows "fst (stats_line line st) = submatch (header_pats ! i) line 1
    \<and> header_pats = [reHeaderHashESP, reHeaderBrace, reHeaderChildSA, reHeaderQuoted]"
proof -
  from assms have "header_name line = Some (submatch (header_pats ! i) line 1)"
    unfolding header_name_def first_capture_index by blast
  then have "stats_line line st = header (submatch (header_pats ! i) line 1) (snd st)"
    by (rule stats_line_header)
  then show ?thesis by (simp add: header_def header_pats_def)
qed

theorem header_first_match_wins_witness:
  "1 < length header_pats
   \<and> MatchString (header_pats ! 1) ''t1{2}:''
   \<and> \<not> MatchString (header_pats ! 0) ''t1{2}:''
   \<and> fst (stats_line ''t1{2}:'' (''old'', Map.empty)) = ''t1''"
proof -
  have a: "1 < length header_pats" by (simp add: header_pats_def)
  have b: "MatchString (header_pats ! 1) ''t1{2}:''"
    using brace_line_facts(1) by (simp add: header_pats_def)
  have c: "\<not> MatchString (header_pats ! 0) ''t1{2}:''"
    using brace_line_facts(2) by (simp add: header_pats_def)
  from c have d: "\<forall>j<1. \<not> MatchString (header_pats ! j) ''t1{2}:''" by simp
  have "submatch (header_pats ! 1) ''t1{2}:'' 1 = ''t1''"
    using brace_line_facts(3) by (simp add: header_pats_def)
  with header_first_match_wins [OF a b d, of "(''old'', Map.empty)"] a b c
  show ?thesis by simp
qed

text \<open>
  C8: on a header line that captures the name \<open>n\<close>, a record that \<open>n\<close> already has
  becomes active and keeps its four counters; a name without a record gets an active
  record with four zero counters. The records of all other names stay as they are.
\<close>

theorem header_keeps_counters:
  assumes "header_name line = Some n"
  shows "(stats n = Some r \<longrightarrow>
           snd (stats_line line (cur, stats)) n =
             Some \<lparr>Active = True, InBytes = InBytes r, OutBytes = OutBytes r,
                   InPkts = InPkts r, OutPkts = OutPkts r\<rparr>)
    \<and> (stats n = None \<longrightarrow>
           snd (stats_line line (cur, stats)) n =
             Some \<lparr>Active = True, InBytes = 0, OutBytes = 0, InPkts = 0, OutPkts = 0\<rparr>)
    \<and> (k \<noteq> n \<longrightarrow> snd (stats_line line (cur, stats)) k = stats k)"
proof -
  have "stats_line line (cur, stats) = header n stats"
    using stats_line_header [OF assms, of "(cur, stats)"] by simp
  then show ?thesis
    by (simp add: header_def lookup_def zeroStats_def)
qed

theorem header_keeps_counters_witness:
  "header_name ''t1{2}:'' = Some ''t1''
   \<and> snd (stats_line ''t1{2}:''
        ([], [''t1'' \<mapsto> \<lparr>Active = False, InBytes = 5, OutBytes = 6, InPkts = 7, OutPkts = 8\<rparr>])) ''t1''
       = Some \<lparr>Active = True, InBytes = 5, OutBytes = 6, InPkts = 7, OutPkts = 8\<rparr>
   \<and> snd (stats_line ''t1{2}:'' ([], Map.empty)) ''t1''
       = Some \<lparr>Active = True, InBytes = 0, OutBytes = 0, InPkts = 0, OutPkts = 0\<rparr>
   \<and> snd (stats_line ''t1{2}:'' ([], Map.empty)) ''t2'' = None"
proof -
  have h: "header_name ''t1{2}:'' = Some ''t1''"
    using brace_line_facts by (simp add: header_name_def header_pats_def)
  let ?r = "\<lparr>Active = False, InBytes = 5, OutBytes = 6, InPkts = 7, OutPkts = 8\<rparr>"
  from header_keeps_counters [OF h, of "[''t1'' \<mapsto> ?r]" ?r "[]" "''t1''"]
  have a: "snd (stats_line ''t1{2}:'' ([], [''t1'' \<mapsto> ?r])) ''t1''
      = Some \<lparr>Active = True, InBytes = 5, OutBytes = 6, InPkts = 7, OutPkts = 8\<rparr>"
    by simp
  from header_keeps_counters [OF h, of Map.empty ?r "[]" "''t2''"]
  have b: "snd (stats_line ''t1{2}:'' ([], Map.empty)) ''t1''
      = Some \<lparr>Active = True, InBytes = 0, OutBytes = 0, InPkts = 0, OutPkts = 0\<rparr>"
    and c: "snd (stats_line ''t1{2}:'' ([], Map.empty)) ''t2'' = None"
    by simp_all
  from h a b c show ?thesis by simp
qed

text \<open>
  C10: every record of the mapping that the Status Aggregator returns is active.
\<close>

theorem records_are_active:
  assumes "parseStatusToStats text k = Some r"
  shows "Active r"
proof -
  have "inv (run (split_lines text))" by (rule inv_run)
  with assms show ?thesis
    unfolding inv_def run_def parseStatusToStats_def by blast
qed

lemma two_headers_lines:
  "split_lines two_headers = [''a{1}:'', ''in: 5 bytes, 6 packets'', ''b{2}:'']"
  by code_simp

lemma two_headers_names:
  "header_name ''a{1}:'' = Some ''a''"
  "header_name ''in: 5 bytes, 6 packets'' = None"
  "header_name ''b{2}:'' = Some ''b''"
  by code_simp+

lemma two_headers_stats:
  "parseStatusToStats two_headers ''a''
     = Some \<lparr>Active = True, InBytes = 5, OutBytes = 0, InPkts = 6, OutPkts = 0\<rparr>"
  by code_simp

theorem records_are_active_witness:
  "parseStatusToStats two_headers ''a''
     = Some \<lparr>Active = True, InBytes = 5, OutBytes = 0, InPkts = 6, OutPkts = 0\<rparr>
   \<and> Active \<lparr>Active = True, InBytes = 5, OutBytes = 0, InPkts = 6, OutPkts = 0\<rparr>"
  using records_are_active [OF two_headers_stats] two_headers_stats by simp

lemma run_snoc: "run (ls @ [l]) = stats_line l (run ls)"
  by (simp add: run_def)

lemma fresh_after_line:
  assumes old: "\<forall>r. snd st n = Some r \<longrightarrow> r = freshStats"
    and quiet: "fst st = n \<and> header_name l = None \<longrightarrow> \<not> is_counter l"
    and new: "snd (stats_line l st) n = Some r"
  shows "r = freshStats"
proof (cases "header_name l")
  case (Some m)
  from new have "snd (header m (snd st)) n = Some r"
    by (simp add: stats_line_header [OF Some])
  with old show ?thesis
    by (cases "snd st n")
      (auto simp: header_def lookup_def zeroStats_def freshStats_def split: if_splits)
next
  case None
  obtain cur stats where st: "st = (cur, stats)" by (cases st)
  show ?thesis
  proof (cases "cur = []")
    case True
    with st None new old show ?thesis by (simp add: stats_line_other)
  next
    case ne: False
    show ?thesis
    proof (cases "cur = n")
      case True
      with quiet st None have "\<not> is_counter l" by simp
      then have "counters l st = st" by (rule counters_not_counter)
      with st None ne new old show ?thesis by (simp add: stats_line_other)
    next
      case False
      from counters_cases [of l cur stats] False
      have "snd (counters l (cur, stats)) n = stats n" by auto
      with st None ne new old show ?thesis by (simp add: stats_line_other)
    qed
  qed
qed

lemma fresh_run:
  "(\<forall>k<length ls. fst (run (take k ls)) = n \<and> header_name (ls ! k) = None
       \<longrightarrow> \<not> is_counter (ls ! k))
   \<Longrightarrow> snd (run ls) n = Some r \<Longrightarrow> r = freshStats"
proof (induction ls arbitrary: r rule: rev_induct)
  case Nil
  then show ?case by (simp add: run_def)
next
  case (snoc l ls)
  have quiet_ls: "\<forall>k<length ls. fst (run (take k ls)) = n \<and> header_name (ls ! k) = None
       \<longrightarrow> \<not> is_counter (ls ! k)"
  proof (intro allI impI)
    fix k assume k: "k < length ls"
      and c: "fst (run (take k ls)) = n \<and> header_name (ls ! k) = None"
    from k have "k < length (ls @ [l])" by simp
    moreover from k c have "fst (run (take k (ls @ [l]))) = n
        \<and> header_name ((ls @ [l]) ! k) = None" by (simp add: nth_append)
    ultimately have "\<not> is_counter ((ls @ [l]) ! k)" using snoc.prems(1) by blast
    with k show "\<not> is_counter (ls ! k)" by (simp add: nth_append)
  qed
  have old: "\<forall>r. snd (run ls) n = Some r \<longrightarrow> r = freshStats"
    using snoc.IH [OF quiet_ls] by blast
  have "length ls < length (ls @ [l])" by simp
  with snoc.prems(1)
  have "fst (run (take (length ls) (ls @ [l]))) = n
      \<and> header_name ((ls @ [l]) ! length ls) = None
      \<longrightarrow> \<not> is_counter ((ls @ [l]) ! length ls)" by blast
  then have quiet: "fst (run ls) = n \<and> header_name l = None \<longrightarrow> \<not> is_counter l" by simp
  from snoc.prems(2) have "snd (stats_line l (run ls)) n = Some r" by (simp add: run_snoc)
  with old quiet show ?case by (rule fresh_after_line)
qed

text \<open>
  C7: the names that have a record in the returned mapping are exactly the names
  captured by the header lines of the text. A line that is no header leaves the initial
  state, without a current connection, as it is. A record is an active record with four
  zero counters when no counter line is read while its name is the current connection.
\<close>

theorem record_iff_header_seen:
  "dom (parseStatusToStats text) = {n. \<exists>l\<in>set (split_lines text). header_name l = Some n}
   \<and> (header_name line = None \<longrightarrow> stats_line line ([], stats) = ([], stats))
   \<and> ((\<forall>k<length (split_lines text).
          fst (run (take k (split_lines text))) = n \<and> header_name (split_lines text ! k) = None
            \<longrightarrow> \<not> is_counter (split_lines text ! k))
        \<longrightarrow> parseStatusToStats text n = Some r
        \<longrightarrow> r = \<lparr>Active = True, InBytes = 0, OutBytes = 0, InPkts = 0, OutPkts = 0\<rparr>)"
proof (intro conjI impI)
  show "dom (parseStatusToStats text) = {n. \<exists>l\<in>set (split_lines text). header_name l = Some n}"
    by (rule dom_parseStatusToStats)
next
  assume "header_name line = None"
  then show "stats_line line ([], stats) = ([], stats)"
    by (simp add: stats_line_other)
next
  assume "\<forall>k<length (split_lines text).
      fst (run (take k (split_lines text))) = n \<and> header_name (split_lines text ! k) = None
        \<longrightarrow> \<not> is_counter (split_lines text ! k)"
    and "parseStatusToStats text n = Some r"
  then have "r = freshStats"
    using fresh_run [of "split_lines text" n r]
    by (simp add: parseStatusToStats_def run_def)
  then show "r = \<lparr>Active = True, InBytes = 0, OutBytes = 0, InPkts = 0, OutPkts = 0\<rparr>"
    by (simp add: freshStats_def)
qed

lemma two_headers_b:
  "parseStatusToStats two_headers ''b''
     = Some \<lparr>Active = True, InBytes = 0, OutBytes = 0, InPkts = 0, OutPkts = 0\<rparr>"
  by code_simp

lemma two_headers_currents:
  "fst (run []) = []"
  "fst (run [''a{1}:'']) = ''a''"
  by code_simp+

theorem record_iff_header_seen_witness:
  "dom (parseStatusToStats two_headers) = {''a'', ''b''}
   \<and> header_name ''in: 5 bytes, 6 packets'' = None
   \<and> stats_line ''in: 5 bytes, 6 packets'' ([], Map.empty) = ([], Map.empty)
   \<and> fst (run (take 0 (split_lines two_headers))) \<noteq> ''b''
   \<and> fst (run (take 1 (split_lines two_headers))) \<noteq> ''b''
   \<and> header_name (split_lines two_headers ! 2) \<noteq> None
   \<and> parseStatusToStats two_headers ''b''
       = Some \<lparr>Active = True, InBytes = 0, OutBytes = 0, InPkts = 0, OutPkts = 0\<rparr>
   \<and> parseStatusToStats two_headers ''a''
       = Some \<lparr>Active = True, InBytes = 5, OutBytes = 0, InPkts = 6, OutPkts = 0\<rparr>"
proof -
  note inst = record_iff_header_seen [of two_headers "''in: 5 bytes, 6 packets''" Map.empty "''b''"
      "\<lparr>Active = True, InBytes = 0, OutBytes = 0, InPkts = 0, OutPkts = 0\<rparr>"]
  have d: "dom (parseStatusToStats two_headers) = {''a'', ''b''}"
    using inst two_headers_names by (auto simp: two_headers_lines)
  have s: "stats_line ''in: 5 bytes, 6 packets'' ([], Map.empty) = ([], Map.empty)"
    using inst two_headers_names(2) by blast
  have c0: "fst (run (take 0 (split_lines two_headers))) \<noteq> ''b''"
    using two_headers_currents(1) by simp
  have c1: "fst (run (take 1 (split_lines two_headers))) \<noteq> ''b''"
    using two_headers_currents(2) by (simp add: two_headers_lines)
  have c2: "header_name (split_lines two_headers ! 2) \<noteq> None"
    using two_headers_names(3) by (simp add: two_headers_lines)
  have "\<forall>k<length (split_lines two_headers).
      fst (run (take k (split_lines two_headers))) = ''b''
        \<and> header_name (split_lines two_headers ! k) = None
        \<longrightarrow> \<not> is_counter (split_lines two_headers ! k)"
  proof (intro allI impI)
    fix k assume "k < length (split_lines two_headers)"
      and h: "fst (run (take k (split_lines two_headers))) = ''b''
        \<and> header_name (split_lines two_headers ! k) = None"
    then have "k = 0 \<or> k = 1 \<or> k = 2" by (auto simp: two_headers_lines)
    with h c0 c1 c2 show "\<not> is_counter (split_lines two_headers ! k)" by auto
  qed
  with inst two_headers_b
  have "parseStatusToStats two_headers ''b''
       = Some \<lparr>Active = True, InBytes = 0, OutBytes = 0, InPkts = 0, OutPkts = 0\<rparr>"
    by blast
  with d two_headers_names(2) s c0 c1 c2 two_headers_stats show ?thesis by blast
qed

section \<open>Claims about the Active Connection Extractor\<close>

lemma active_line_eq:
  "active_line line names = (case active_name line of None \<Rightarrow> names | Some n \<Rightarrow> insert n names)"
  by (simp add: active_line_def active_name_def active_pats_def)

lemma fold_active_line:
  "fold active_line ls A = A \<union> {n. \<exists>l\<in>set ls. active_name l = Some n}"
proof (induction ls arbitrary: A)
  case Nil
  show ?case by simp
next
  case (Cons l ls)
  have "fold active_line (l # ls) A = fold active_line ls (active_line l A)" by simp
  also have "\<dots> = active_line l A \<union> {n. \<exists>l\<in>set ls. active_name l = Some n}"
    by (rule Cons.IH)
  also have "\<dots> = A \<union> {n. \<exists>x\<in>set (l # ls). active_name x = Some n}"
    unfolding active_line_eq by (cases "active_name l") auto
  finally show ?case .
qed

lemma finite_fold_active_line: "finite A \<Longrightarrow> finite (fold active_line ls A)"
proof (induction ls arbitrary: A)
  case Nil
  then show ?case by simp
next
  case (Cons l ls)
  from Cons.prems have "finite (active_line l A)"
    by (cases "active_name l") (simp_all add: active_line_eq)
  then show ?case by (simp add: Cons.IH)
qed

lemma set_parseActive:
  "set (parseActiveChildrenFromListSas text)
     = {n. \<exists>l\<in>set (split_lines text). active_name l = Some n}"
proof -
  have "finite (fold active_line (split_lines text) {})"
    by (rule finite_fold_active_line) simp
  then show ?thesis
    by (simp add: parseActiveChildrenFromListSas_def sorted_keys_def fold_active_line)
qed

definition scenario_A :: string where
  "scenario_A = ''tun1: #3, reqid 1, INSTALLED, TUNNEL, ESP:AES_CBC'' @ nl
     @ ''in  0xc1234567,  1000 bytes,   10 packets'' @ nl
     @ ''out 0xc7654321,  2000 bytes,   20 packets''"

definition quoted_and_log :: string where
  "quoted_and_log = ''child '' @ quote @ ''a'' @ quote @ '' installed CHILD_SA '' @ quote @ ''b'' @ quote"

lemma installed_line_facts:
  "parseActiveChildrenFromListSas ''tun1: INSTALLED'' = [''tun1'']"
  "parseStatusToStats ''tun1: INSTALLED'' ''tun1'' = None"
  by code_simp+

text \<open>
  C1, as the claim states it, fails: the line \<^verbatim>\<open>tun1: INSTALLED\<close> matches the fourth
  pattern of the Active Connection Extractor and no header pattern of the Status
  Aggregator, so that the list is \<open>[tun1]\<close> and the mapping has no key.
\<close>

theorem active_list_status_keys_counterexample:
  "set (parseActiveChildrenFromListSas ''tun1: INSTALLED'')
     \<noteq> dom (parseStatusToStats ''tun1: INSTALLED'')"
proof -
  have "''tun1'' \<in> set (parseActiveChildrenFromListSas ''tun1: INSTALLED'')"
    by (simp add: installed_line_facts(1))
  moreover have "''tun1'' \<notin> dom (parseStatusToStats ''tun1: INSTALLED'')"
    using installed_line_facts(2) by blast
  ultimately show ?thesis by blast
qed

text \<open>
  C1, amended: the two functions classify lines with pattern sets of their own (seven
  case-insensitive patterns against four case-sensitive ones). On every text each of
  whose lines gets the same name, or none, from both, the active-connection list and the
  key set of the status mapping are set-equal.
\<close>

theorem active_list_eq_status_keys:
  assumes "\<forall>l\<in>set (split_lines text). active_name l = header_name l"
  shows "set (parseActiveChildrenFromListSas text) = dom (parseStatusToStats text)"
  using assms by (simp add: set_parseActive dom_parseStatusToStats)

lemma two_headers_agree:
  "list_all (\<lambda>l. active_name l = header_name l) (split_lines two_headers)"
  by code_simp

lemma two_headers_active: "parseActiveChildrenFromListSas two_headers = [''a'', ''b'']"
  by code_simp

theorem active_list_eq_status_keys_witness:
  "list_all (\<lambda>l. active_name l = header_name l) (split_lines two_headers)
   \<and> parseActiveChildrenFromListSas two_headers = [''a'', ''b'']
   \<and> dom (parseStatusToStats two_headers) = {''a'', ''b''}"
proof -
  from two_headers_agree
  have "\<forall>l\<in>set (split_lines two_headers). active_name l = header_name l"
    by (simp add: list_all_iff)
  from active_list_eq_status_keys [OF this] two_headers_active two_headers_agree
  show ?thesis by simp
qed

lemma quoted_and_log_facts:
  "MatchString act_reQuoted quoted_and_log"
  "submatch act_reQuoted quoted_and_log 1 = ''a''"
  "MatchString act_reInstalledLog quoted_and_log"
  "submatch act_reInstalledLog quoted_and_log 1 = ''b''"
  "\<not> MatchString act_reBrace quoted_and_log"
  "\<not> MatchString act_reChildSa quoted_and_log"
  "parseActiveChildrenFromListSas quoted_and_log = [''a'']"
  by code_simp+

text \<open>
  C2, as the claim states it, fails: the line
  \<^verbatim>\<open>child 'a' installed CHILD_SA 'b'\<close> matches the quoted pattern, which captures
  \<open>a\<close>, and the log pattern, which captures \<open>b\<close>; the result holds \<open>a\<close> alone.
\<close>

theorem active_all_patterns_counterexample:
  "MatchString act_reQuoted quoted_and_log
   \<and> submatch act_reQuoted quoted_and_log 1 = ''a''
   \<and> MatchString act_reInstalledLog quoted_and_log
   \<and> submatch act_reInstalledLog quoted_and_log 1 = ''b''
   \<and> ''b'' \<notin> set (parseActiveChildrenFromListSas quoted_and_log)"
  using quoted_and_log_facts by simp

text \<open>
  C2, amended: in the Active Connection Extractor every line is tested against the
  seven patterns in the order brace, \<^verbatim>\<open>CHILD_SA\<close>, quoted, \<^verbatim>\<open>INSTALLED\<close>, log,
  hash-ESP, tolerant header, and the first pattern that matches wins: a line contributes
  the name captured by the earliest matching pattern and nothing else. The result holds
  exactly these names, sorted ascending and without duplicates.
\<close>

theorem active_first_match_wins:
  "set (parseActiveChildrenFromListSas text) =
     {n. \<exists>l\<in>set (split_lines text). \<exists>i<length active_pats.
           MatchString (active_pats ! i) l \<and> (\<forall>j<i. \<not> MatchString (active_pats ! j) l)
           \<and> n = submatch (active_pats ! i) l 1}
   \<and> sorted (parseActiveChildrenFromListSas text)
   \<and> distinct (parseActiveChildrenFromListSas text)
   \<and> active_pats = [act_reBrace, act_reChildSa, act_reQuoted, act_reInstalled,
        act_reInstalledLog, act_reChildHashESP, act_reTolerantHeader]"
proof -
  have "set (parseActiveChildrenFromListSas text) =
     {n. \<exists>l\<in>set (split_lines text). \<exists>i<length active_pats.
           MatchString (active_pats ! i) l \<and> (\<forall>j<i. \<not> MatchString (active_pats ! j) l)
           \<and> n = submatch (active_pats ! i) l 1}"
    unfolding set_parseActive active_name_def first_capture_index by (rule refl)
  moreover have "sorted (parseActiveChildrenFromListSas text)"
    and "distinct (parseActiveChildrenFromListSas text)"
    by (simp_all add: parseActiveChildrenFromListSas_def sorted_keys_def)
  ultimately show ?thesis by (simp add: active_pats_def)
qed

theorem active_first_match_wins_witness:
  "MatchString (active_pats ! 2) quoted_and_log
   \<and> \<not> MatchString (active_pats ! 0) quoted_and_log
   \<and> \<not> MatchString (active_pats ! 1) quoted_and_log
   \<and> MatchString (active_pats ! 4) quoted_and_log
   \<and> set (parseActiveChildrenFromListSas quoted_and_log) = {submatch (active_pats ! 2) quoted_and_log 1}"
proof -
  have l: "split_lines quoted_and_log = [quoted_and_log]" by code_simp
  have p: "active_pats ! 0 = act_reBrace" "active_pats ! 1 = act_reChildSa"
    "active_pats ! 2 = act_reQuoted" "active_pats ! 4 = act_reInstalledLog"
    "active_pats ! Suc 0 = act_reChildSa"
    by (simp_all add: active_pats_def)
  have "set (parseActiveChildrenFromListSas quoted_and_log) = {''a''}"
    by (simp add: quoted_and_log_facts(7))
  moreover have "submatch (active_pats ! 2) quoted_and_log 1
      \<in> set (parseActiveChildrenFromListSas quoted_and_log)"
  proof -
    have "2 < length active_pats" by (simp add: active_pats_def)
    moreover have "MatchString (active_pats ! 2) quoted_and_log"
      using quoted_and_log_facts(1) by (simp add: p)
    moreover have "\<forall>j<2. \<not> MatchString (active_pats ! j) quoted_and_log"
    proof (intro allI impI)
      fix j :: nat assume "j < 2"
      then have "j = 0 \<or> j = 1" by auto
      then show "\<not> MatchString (active_pats ! j) quoted_and_log"
        using quoted_and_log_facts(5,6) by (auto simp: p)
    qed
    ultimately have "\<exists>l\<in>set (split_lines quoted_and_log). \<exists>i<length active_pats.
        MatchString (active_pats ! i) l \<and> (\<forall>j<i. \<not> MatchString (active_pats ! j) l)
        \<and> submatch (active_pats ! 2) quoted_and_log 1 = submatch (active_pats ! i) l 1"
      unfolding l by auto
    with active_first_match_wins [of quoted_and_log] show ?thesis by blast
  qed
  ultimately show ?thesis using quoted_and_log_facts by (auto simp: p)
qed

lemma scenario_A_lines:
  "split_lines scenario_A =
     [''tun1: #3, reqid 1, INSTALLED, TUNNEL, ESP:AES_CBC'',
      ''in  0xc1234567,  1000 bytes,   10 packets'',
      ''out 0xc7654321,  2000 bytes,   20 packets'']"
  by code_simp

lemma scenario_A_names:
  "header_name ''tun1: #3, reqid 1, INSTALLED, TUNNEL, ESP:AES_CBC'' = Some ''tun1''"
  "header_name ''in  0xc1234567,  1000 bytes,   10 packets'' = None"
  "header_name ''out 0xc7654321,  2000 bytes,   20 packets'' = None"
  by code_simp+

lemma scenario_A_tun1:
  "parseStatusToStats scenario_A ''tun1''
     = Some \<lparr>Active = True, InBytes = 1000, OutBytes = 2000, InPkts = 10, OutPkts = 20\<rparr>"
  by code_simp

lemma scenario_A_dom: "dom (parseStatusToStats scenario_A) = {''tun1''}"
  unfolding dom_parseStatusToStats scenario_A_lines using scenario_A_names by auto

text \<open>
  C5: on the three lines of Scenario A the Status Aggregator returns the mapping with
  the single key \<open>tun1\<close> and the record
  \<open>{active: true, in_bytes: 1000, in_pkts: 10, out_bytes: 2000, out_pkts: 20}\<close>.
\<close>

theorem scenario_A_mapping:
  "parseStatusToStats scenario_A =
     [''tun1'' \<mapsto> \<lparr>Active = True, InBytes = 1000, OutBytes = 2000, InPkts = 10, OutPkts = 20\<rparr>]"
proof
  fix k
  show "parseStatusToStats scenario_A k =
     [''tun1'' \<mapsto> \<lparr>Active = True, InBytes = 1000, OutBytes = 2000, InPkts = 10, OutPkts = 20\<rparr>] k"
  proof (cases "k = ''tun1''")
    case True
    then show ?thesis by (simp add: scenario_A_tun1)
  next
    case False
    then have "k \<notin> dom (parseStatusToStats scenario_A)" by (simp add: scenario_A_dom)
    then have "parseStatusToStats scenario_A k = None" by blast
    with False show ?thesis by simp
  qed
qed

section \<open>Claims about the Connection Name Extractor\<close>

lemma set_sorted_keys: "finite A \<Longrightarrow> set (sorted_keys A) = A"
  by (simp add: sorted_keys_def)

lemma fold_uniq:
  "fold (\<lambda>n uniq. if TrimSpace n \<noteq> [] then insert (TrimSpace n) uniq else uniq) names A
     = A \<union> {TrimSpace n |n. n \<in> set names \<and> TrimSpace n \<noteq> []}"
proof (induction names arbitrary: A)
  case Nil
  show ?case by simp
next
  case (Cons x xs)
  show ?case by (simp add: Cons.IH) blast
qed

lemma uniq_names_set:
  "uniq_names names = {TrimSpace n |n. n \<in> set names \<and> TrimSpace n \<noteq> []}"
  by (simp add: uniq_names_def fold_uniq)

lemma finite_uniq_names: "finite (uniq_names names)"
proof -
  have "uniq_names names \<subseteq> TrimSpace ` set names"
    unfolding uniq_names_set by blast
  then show ?thesis by (rule finite_subset) simp
qed

lemma set_childrenJSONHandler:
  "set (childrenJSONHandler connsOut sasOut) =
     {TrimSpace n |n. n \<in> set (if parseChildrenFromListConns connsOut = []
                                then parseChildrenFromListSas sasOut
                                else parseChildrenFromListConns connsOut)
                      \<and> TrimSpace n \<noteq> []}"
  by (simp add: childrenJSONHandler_def Let_def set_sorted_keys finite_uniq_names uniq_names_set)

definition hash_esp_line :: string where
  "hash_esp_line = ''tun1: #3, reqid 1, INSTALLED, TUNNEL, ESP:AES_CBC''"

definition three_sas :: string where
  "three_sas = ''x{1}:'' @ nl @ ''child a{2}'' @ nl @ ''child '' @ quote @ '' q '' @ quote"

lemma hash_esp_line_facts:
  "parseChildrenFromListConns [] = []"
  "MatchString act_reChildHashESP hash_esp_line"
  "submatch act_reChildHashESP hash_esp_line 1 = ''tun1''"
  "childrenJSONHandler [] hash_esp_line = []"
  by code_simp+

text \<open>
  C3, as the claim states it, fails: with an empty primary text and the secondary text
  \<^verbatim>\<open>tun1: #3, reqid 1, INSTALLED, TUNNEL, ESP:AES_CBC\<close>, the hash-ESP pattern of
  the Active Connection Extractor captures \<open>tun1\<close>, and the listing is empty.
\<close>

theorem fallback_seven_patterns_counterexample:
  "parseChildrenFromListConns [] = []
   \<and> MatchString act_reChildHashESP hash_esp_line
   \<and> submatch act_reChildHashESP hash_esp_line 1 = ''tun1''
   \<and> ''tun1'' \<notin> set (childrenJSONHandler [] hash_esp_line)"
  using hash_esp_line_facts by simp

text \<open>
  C3, amended: if the three primary matchers yield no name on the primary text, the
  listing is computed from the secondary text alone, with the three patterns of
  \<^verbatim>\<open>parseChildrenFromListSas\<close> (brace-indexed header with an optional
  \<^verbatim>\<open>child\<close> prefix and an optional colon, \<^verbatim>\<open>CHILD_SA name{n}\<close>, quoted
  \<^verbatim>\<open>child 'name'\<close>), each applied to the whole text for all its matches: the
  captures are trimmed, the empty ones dropped, and the result is sorted ascending
  without duplicates.
\<close>

theorem fallback_three_patterns:
  assumes "parseChildrenFromListConns connsOut = []"
  shows "set (childrenJSONHandler connsOut sasOut) =
      {TrimSpace n |n.
         n \<in> set (FindAllGroup1 sas_reBrace sasOut) \<union> set (FindAllGroup1 sas_reChildSa sasOut)
               \<union> set (FindAllGroup1 sas_reQuoted sasOut)
         \<and> TrimSpace n \<noteq> []}
    \<and> sorted (childrenJSONHandler connsOut sasOut)
    \<and> distinct (childrenJSONHandler connsOut sasOut)"
proof -
  have "sorted (childrenJSONHandler connsOut sasOut)" and "distinct (childrenJSONHandler connsOut sasOut)"
    by (simp_all add: childrenJSONHandler_def Let_def sorted_keys_def)
  moreover have "set (childrenJSONHandler connsOut sasOut) =
      {TrimSpace n |n.
         n \<in> set (FindAllGroup1 sas_reBrace sasOut) \<union> set (FindAllGroup1 sas_reChildSa sasOut)
               \<union> set (FindAllGroup1 sas_reQuoted sasOut)
         \<and> TrimSpace n \<noteq> []}"
    unfolding set_childrenJSONHandler using assms by (simp add: parseChildrenFromListSas_def)
  ultimately show ?thesis by simp
qed

lemma three_sas_facts:
  "parseChildrenFromListConns ''no connections'' = []"
  "childrenJSONHandler ''no connections'' three_sas = [''a'', ''q'', ''x'']"
  "FindAllGroup1 sas_reBrace three_sas = [''x'', ''a'']"
  "FindAllGroup1 sas_reChildSa three_sas = []"
  "FindAllGroup1 sas_reQuoted three_sas = ['' q '']"
  by code_simp+

theorem fallback_three_patterns_witness:
  "parseChildrenFromListConns ''no connections'' = []
   \<and> childrenJSONHandler ''no connections'' three_sas = [''a'', ''q'', ''x'']
   \<and> FindAllGroup1 sas_reBrace three_sas = [''x'', ''a'']
   \<and> FindAllGroup1 sas_reChildSa three_sas = []
   \<and> FindAllGroup1 sas_reQuoted three_sas = ['' q '']
   \<and> sorted (childrenJSONHandler ''no connections'' three_sas)
   \<and> distinct (childrenJSONHandler ''no connections'' three_sas)"
  using fallback_three_patterns [OF three_sas_facts(1), of three_sas] three_sas_facts
  by simp

section \<open>What a capture can hold\<close>

text \<open>Non-empty words all of whose bytes satisfy a predicate.\<close>

definition all_in :: "(char \<Rightarrow> bool) \<Rightarrow> string \<Rightarrow> bool" where
  "all_in P w = (w \<noteq> [] \<and> list_all P w)"

lemma runs_chars_aux:
  "\<forall>s n. eat a s = Some n \<longrightarrow> list_all P (take n s) \<Longrightarrow> n \<in> set (runs a s)
     \<Longrightarrow> n \<le> length s \<and> list_all P (take n s)"
proof (induction a s arbitrary: n rule: runs.induct)
  case (1 a s)
  note step = "1.prems"(1)
  show ?case
  proof (cases "eat a s")
    case None
    with "1.prems"(2) have "n = 0" by (subst (asm) runs.simps) simp
    then show ?thesis by simp
  next
    case (Some m)
    from "1.prems"(2) Some have "n = 0 \<or> (\<exists>k\<in>set (runs a (drop m s)). n = m + k)"
      by (subst (asm) runs.simps) auto
    then show ?thesis
    proof
      assume "n = 0"
      then show ?thesis by simp
    next
      assume "\<exists>k\<in>set (runs a (drop m s)). n = m + k"
      then obtain k where k: "k \<in> set (runs a (drop m s))" and n: "n = m + k" by blast
      from "1.IH" [OF Some step k]
      have a: "k \<le> length (drop m s)" and b: "list_all P (take k (drop m s))" by simp_all
      from eat_width [OF Some] have m: "m \<le> length s" by simp
      from step Some have c: "list_all P (take m s)" by blast
      from a m n have "n \<le> length s" by simp
      moreover have "take n s = take m s @ take k (drop m s)"
        unfolding n by (rule take_add)
      ultimately show ?thesis using b c by simp
    qed
  qed
qed

lemma runs_chars:
  assumes step: "\<And>s n. eat a s = Some n \<Longrightarrow> list_all P (take n s)"
  shows "n \<in> set (runs a s) \<Longrightarrow> n \<le> length s \<and> list_all P (take n s)"
  using runs_chars_aux [of a P n s] step by blast

lemma runs_tl:
  "n \<in> set (tl (runs a s)) \<Longrightarrow> 0 < n \<and> n \<in> set (runs a s)"
proof -
  assume h: "n \<in> set (tl (runs a s))"
  show ?thesis
  proof (cases "eat a s")
    case None
    with h show ?thesis by (subst (asm) runs.simps) simp
  next
    case (Some m)
    from h Some have "\<exists>k\<in>set (runs a (drop m s)). n = m + k"
      by (subst (asm) runs.simps) auto
    with eat_width [OF Some] have "0 < n" by auto
    moreover from h have "n \<in> set (runs a s)" by (subst runs.simps) (simp add: runs.simps [of a s])
    ultimately show ?thesis by simp
  qed
qed

text \<open>Every match of the expression consumes a word with the property \<open>Q\<close>.\<close>

definition grp_ok :: "(string \<Rightarrow> bool) \<Rightarrow> re \<Rightarrow> bool" where
  "grp_ok Q r = (\<forall>p s c p' s' c'. (p', s', c') \<in> set (rmatch r p s c)
     \<longrightarrow> Q (take (length s - length s') s))"

lemma grp_ok_Plus:
  assumes step: "\<And>s n. eat a s = Some n \<Longrightarrow> list_all P (take n s)"
  shows "grp_ok (all_in P) (Plus a)"
  unfolding grp_ok_def
proof (intro allI impI)
  fix p s c p' s' c'
  assume "(p', s', c') \<in> set (rmatch (Plus a) p s c)"
  then obtain n where n: "n \<in> set (tl (runs a s))" and e: "(p', s', c') = step_to n p s c"
    by auto
  from runs_tl [OF n] have pos: "0 < n" and r: "n \<in> set (runs a s)" by simp_all
  from runs_chars [of a P, OF step r] have le: "n \<le> length s" and ch: "list_all P (take n s)"
    by simp_all
  from e have "s' = drop n s" by (simp add: step_to_def)
  with le have "length s - length s' = n" by simp
  moreover from pos le have "take n s \<noteq> []" by auto
  ultimately show "all_in P (take (length s - length s') s)"
    using ch by (simp add: all_in_def)
qed

text \<open>Every group number 1 inside the expression captures words with the property \<open>Q\<close>.\<close>

fun cap1 :: "(string \<Rightarrow> bool) \<Rightarrow> re \<Rightarrow> bool" where
  "cap1 Q (Group k r) = (cap1 Q r \<and> (k = 1 \<longrightarrow> grp_ok Q r))"
| "cap1 Q (Seq r1 r2) = (cap1 Q r1 \<and> cap1 Q r2)"
| "cap1 Q (Alt r1 r2) = (cap1 Q r1 \<and> cap1 Q r2)"
| "cap1 Q (Opt r) = cap1 Q r"
| "cap1 Q r = True"

text \<open>Every match of the expression goes through a group number 1.\<close>

fun sets1 :: "re \<Rightarrow> bool" where
  "sets1 (Group k r) = (k = 1 \<or> sets1 r)"
| "sets1 (Seq r1 r2) = (sets1 r1 \<or> sets1 r2)"
| "sets1 (Alt r1 r2) = (sets1 r1 \<and> sets1 r2)"
| "sets1 r = False"

lemma step_to_caps: "step_to n p s c = (p', s', c') \<Longrightarrow> c' = c"
  by (auto simp: step_to_def)

lemma cap1_rmatch:
  "cap1 Q r \<Longrightarrow> (p', s', c') \<in> set (rmatch r p s c)
     \<Longrightarrow> \<forall>w. c 1 = Some w \<longrightarrow> Q w \<Longrightarrow> \<forall>w. c' 1 = Some w \<longrightarrow> Q w"
proof (induction r arbitrary: p s c p' s' c')
  case (Seq r1 r2)
  from Seq.prems(2) obtain p1 s1 c1 where a: "(p1, s1, c1) \<in> set (rmatch r1 p s c)"
    and b: "(p', s', c') \<in> set (rmatch r2 p1 s1 c1)"
    by auto
  from Seq.prems(1) have q1: "cap1 Q r1" and q2: "cap1 Q r2" by simp_all
  from Seq.IH(1) [OF q1 a Seq.prems(3)] have "\<forall>w. c1 1 = Some w \<longrightarrow> Q w" .
  from Seq.IH(2) [OF q2 b this] show ?case .
next
  case (Group k r)
  from Group.prems(2) obtain c1 where a: "(p', s', c1) \<in> set (rmatch r p s c)"
    and c': "c' = c1(k \<mapsto> take (length s - length s') s)"
    by auto
  from Group.prems(1) have q: "cap1 Q r" by simp
  from Group.IH [OF q a Group.prems(3)] have i: "\<forall>w. c1 1 = Some w \<longrightarrow> Q w" .
  show ?case
  proof (cases "k = 1")
    case True
    with Group.prems(1) have "grp_ok Q r" by simp
    with a have "Q (take (length s - length s') s)" unfolding grp_ok_def by blast
    with True c' show ?thesis by simp
  next
    case False
    with c' i show ?thesis by simp
  qed
next
  case (Atom a)
  then show ?case by (auto split: option.splits dest: step_to_caps [OF sym])
next
  case (Star a)
  then show ?case by (auto dest: step_to_caps [OF sym])
next
  case (Plus a)
  then show ?case by (auto dest: step_to_caps [OF sym])
next
  case (LazyStar a)
  then show ?case by (auto dest: step_to_caps [OF sym])
next
  case (Opt r)
  from Opt.prems(2) have "(p', s', c') \<in> set (rmatch r p s c) \<or> c' = c" by auto
  then show ?case
  proof
    assume a: "(p', s', c') \<in> set (rmatch r p s c)"
    from Opt.prems(1) have "cap1 Q r" by simp
    from Opt.IH [OF this a Opt.prems(3)] show ?thesis .
  next
    assume "c' = c"
    with Opt.prems(3) show ?thesis by simp
  qed
next
  case (Alt r1 r2)
  from Alt.prems(2) have "(p', s', c') \<in> set (rmatch r1 p s c) \<or> (p', s', c') \<in> set (rmatch r2 p s c)"
    by auto
  then show ?case
  proof
    assume a: "(p', s', c') \<in> set (rmatch r1 p s c)"
    from Alt.prems(1) have "cap1 Q r1" by simp
    from Alt.IH(1) [OF this a Alt.prems(3)] show ?thesis .
  next
    assume a: "(p', s', c') \<in> set (rmatch r2 p s c)"
    from Alt.prems(1) have "cap1 Q r2" by simp
    from Alt.IH(2) [OF this a Alt.prems(3)] show ?thesis .
  qed
qed (auto split: if_splits)

lemma keep1_rmatch:
  "(p', s', c') \<in> set (rmatch r p s c) \<Longrightarrow> c 1 \<noteq> None \<Longrightarrow> c' 1 \<noteq> None"
proof (induction r arbitrary: p s c p' s' c')
  case (Seq r1 r2)
  from Seq.prems(1) obtain p1 s1 c1 where a: "(p1, s1, c1) \<in> set (rmatch r1 p s c)"
    and b: "(p', s', c') \<in> set (rmatch r2 p1 s1 c1)"
    by auto
  from Seq.IH(1) [OF a Seq.prems(2)] have "c1 1 \<noteq> None" .
  from Seq.IH(2) [OF b this] show ?case .
next
  case (Group k r)
  from Group.prems(1) obtain c1 where a: "(p', s', c1) \<in> set (rmatch r p s c)"
    and c': "c' = c1(k \<mapsto> take (length s - length s') s)"
    by auto
  from Group.IH [OF a Group.prems(2)] c' show ?case by simp
next
  case (Atom a)
  then show ?case by (auto split: option.splits dest: step_to_caps [OF sym])
next
  case (Star a)
  then show ?case by (auto dest: step_to_caps [OF sym])
next
  case (Plus a)
  then show ?case by (auto dest: step_to_caps [OF sym])
next
  case (LazyStar a)
  then show ?case by (auto dest: step_to_caps [OF sym])
next
  case (Opt r)
  from Opt.prems(1) have "(p', s', c') \<in> set (rmatch r p s c) \<or> c' = c" by auto
  with Opt.IH Opt.prems(2) show ?case by blast
next
  case (Alt r1 r2)
  from Alt.prems(1) have "(p', s', c') \<in> set (rmatch r1 p s c) \<or> (p', s', c') \<in> set (rmatch r2 p s c)"
    by auto
  with Alt.IH Alt.prems(2) show ?case by blast
qed (auto split: if_splits)

lemma sets1_rmatch:
  "sets1 r \<Longrightarrow> (p', s', c') \<in> set (rmatch r p s c) \<Longrightarrow> c' 1 \<noteq> None"
proof (induction r arbitrary: p s c p' s' c')
  case (Seq r1 r2)
  from Seq.prems(2) obtain p1 s1 c1 where a: "(p1, s1, c1) \<in> set (rmatch r1 p s c)"
    and b: "(p', s', c') \<in> set (rmatch r2 p1 s1 c1)"
    by auto
  from Seq.prems(1) have "sets1 r1 \<or> sets1 r2" by simp
  then show ?case
  proof
    assume "sets1 r1"
    from Seq.IH(1) [OF this a] have "c1 1 \<noteq> None" .
    from keep1_rmatch [OF b this] show ?thesis .
  next
    assume "sets1 r2"
    from Seq.IH(2) [OF this b] show ?thesis .
  qed
next
  case (Group k r)
  from Group.prems(2) obtain c1 where a: "(p', s', c1) \<in> set (rmatch r p s c)"
    and c': "c' = c1(k \<mapsto> take (length s - length s') s)"
    by auto
  show ?case
  proof (cases "k = 1")
    case True
    with c' show ?thesis by simp
  next
    case False
    with Group.prems(1) have "sets1 r" by simp
    from Group.IH [OF this a] c' show ?thesis by simp
  qed
next
  case (Alt r1 r2)
  from Alt.prems(2) have "(p', s', c') \<in> set (rmatch r1 p s c) \<or> (p', s', c') \<in> set (rmatch r2 p s c)"
    by auto
  with Alt.IH Alt.prems(1) show ?case by auto
qed simp_all

lemma rfind_rmatch:
  "rfind r p s = Some (k, m) \<Longrightarrow> \<exists>p0 s0. m \<in> set (rmatch r p0 s0 Map.empty)"
proof (induction s arbitrary: p k)
  case Nil
  then have "m \<in> set (rmatch r p [] Map.empty)" by (auto split: list.splits)
  then show ?case by blast
next
  case (Cons x xs)
  show ?case
  proof (cases "rmatch r p (x # xs) Map.empty")
    case Nil
    with Cons.prems obtain j where "rfind r (Some x) xs = Some (j, m)" by auto
    from Cons.IH [OF this] show ?thesis .
  next
    case (Cons m' ms)
    with Cons.prems have "m \<in> set (rmatch r p (x # xs) Map.empty)" by auto
    then show ?thesis by blast
  qed
qed

lemma submatch_ok:
  assumes "cap1 Q r" and "sets1 r" and "MatchString r line"
  shows "Q (submatch r line 1)"
proof -
  from assms(3) obtain k p' s' c' where f: "rfind r None line = Some (k, (p', s', c'))"
    unfolding MatchString_def by auto
  from rfind_rmatch [OF f] obtain p0 s0 where m: "(p', s', c') \<in> set (rmatch r p0 s0 Map.empty)"
    by blast
  from sets1_rmatch [OF assms(2) m] obtain w where w: "c' 1 = Some w" by auto
  have "\<forall>w. (Map.empty :: caps) 1 = Some w \<longrightarrow> Q w" by simp
  from cap1_rmatch [OF assms(1) m this] w have "Q w" by blast
  moreover from f w have "submatch r line 1 = w"
    by (simp add: submatch_def FindStringSubmatch_def)
  ultimately show ?thesis by simp
qed

text \<open>The bytes of the two runes that fold to \<open>k\<close> and to \<open>s\<close>.\<close>

definition foldC :: string where
  "foldC = [CHR 0xE2, CHR 0x84, CHR 0xAA, CHR 0xC5, CHR 0xBF]"

definition tokC :: "char \<Rightarrow> bool" where
  "tokC c = (c \<in> set nameC)"

definition tokIC :: "char \<Rightarrow> bool" where
  "tokIC c = (c \<in> set nameC \<or> c \<in> set foldC)"

definition nqC :: "char \<Rightarrow> bool" where
  "nqC c = (c \<noteq> CHR 0x27)"

lemma eat_nm: "eat nm s = Some n \<Longrightarrow> list_all tokC (take n s)"
  by (cases s) (auto simp: tokC_def split: if_splits)

lemma eat_nq: "eat (NotCls [CHR 0x27]) s = Some n \<Longrightarrow> list_all nqC (take n s)"
  by (cases s) (auto simp: nqC_def split: if_splits)

lemma lower_other: "c \<notin> set upperC \<Longrightarrow> lower c = c"
  by (simp add: lower_def upperC_def lowerC_def)

lemma lower_nameC_closed: "list_all (\<lambda>c. c \<in> set nameC) (map lower nameC)"
  by code_simp

lemma lower_nameC: "lower c \<in> set (map lower nameC) \<Longrightarrow> c \<in> set nameC"
proof (cases "c \<in> set upperC")
  case True
  then show ?thesis by (simp add: nameC_def)
next
  case False
  assume "lower c \<in> set (map lower nameC)"
  with lower_other [OF False] have "c \<in> set (map lower nameC)" by simp
  with lower_nameC_closed show ?thesis unfolding list_all_iff by blast
qed

lemma eat_nmI:
  "eat nmI s = Some n \<Longrightarrow> list_all tokIC (take n s)"
proof (cases s)
  case Nil
  assume "eat nmI s = Some n"
  with Nil show ?thesis by simp
next
  case (Cons x xs)
  assume h: "eat nmI s = Some n"
  show ?thesis
  proof (cases "x = CHR 0xE2 \<and> take 2 xs = [CHR 0x84, CHR 0xAA]")
    case True
    with h Cons have "n = 3" by (auto split: if_splits)
    moreover have "take 3 (x # xs) = x # take 2 xs" by (simp add: numeral_3_eq_3 numeral_2_eq_2)
    ultimately show ?thesis using True Cons by (simp add: foldC_def tokIC_def)
  next
    case ne: False
    show ?thesis
    proof (cases "x = CHR 0xC5 \<and> take 1 xs = [CHR 0xBF]")
      case True
      with h Cons ne have "n = 2" by (auto split: if_splits)
      moreover have "take 2 (x # xs) = x # take 1 xs" by (simp add: numeral_2_eq_2)
      ultimately show ?thesis using True Cons by (simp add: foldC_def tokIC_def)
    next
      case False
      with h Cons ne have "n = 1" and "lower x \<in> set (map lower nameC)"
        by (auto split: if_splits)
      with lower_nameC [of x] Cons show ?thesis by (simp add: tokIC_def)
    qed
  qed
qed

lemmas pattern_defs =
  seqs_def lit_def litI_def
  reHeaderHashESP_def reHeaderBrace_def reHeaderChildSA_def reHeaderQuoted_def
  act_reBrace_def act_reChildSa_def act_reQuoted_def act_reInstalled_def
  act_reInstalledLog_def act_reChildHashESP_def act_reTolerantHeader_def

lemma grp_nm: "grp_ok (all_in tokC) (Plus nm)"
  by (rule grp_ok_Plus) (rule eat_nm)

lemma grp_nmI: "grp_ok (all_in tokIC) (Plus nmI)"
  by (rule grp_ok_Plus) (rule eat_nmI)

lemma grp_nq: "grp_ok (all_in nqC) (Plus (NotCls [CHR 0x27]))"
  by (rule grp_ok_Plus) (rule eat_nq)

lemma header_token_pats:
  "cap1 (all_in tokC) reHeaderHashESP" "sets1 reHeaderHashESP"
  "cap1 (all_in tokC) reHeaderBrace" "sets1 reHeaderBrace"
  "cap1 (all_in tokC) reHeaderChildSA" "sets1 reHeaderChildSA"
  by (simp_all add: pattern_defs grp_nm)

lemma header_quoted_pat:
  "cap1 (all_in nqC) reHeaderQuoted" "sets1 reHeaderQuoted"
  by (simp_all add: pattern_defs grp_nq)

lemma active_token_pats:
  "cap1 (all_in tokIC) act_reBrace" "sets1 act_reBrace"
  "cap1 (all_in tokIC) act_reChildSa" "sets1 act_reChildSa"
  "cap1 (all_in tokIC) act_reInstalled" "sets1 act_reInstalled"
  "cap1 (all_in tokIC) act_reChildHashESP" "sets1 act_reChildHashESP"
  "cap1 (all_in tokIC) act_reTolerantHeader" "sets1 act_reTolerantHeader"
  by (simp_all add: pattern_defs grp_nmI)

lemma active_quoted_pats:
  "cap1 (all_in nqC) act_reQuoted" "sets1 act_reQuoted"
  "cap1 (all_in nqC) act_reInstalledLog" "sets1 act_reInstalledLog"
  by (simp_all add: pattern_defs grp_nq)

text \<open>The token pattern \<^verbatim>\<open>[A-Za-z0-9._:-]+\<close>.\<close>

definition is_token :: "string \<Rightarrow> bool" where
  "is_token w = (w \<noteq> [] \<and> set w \<subseteq> set nameC)"

text \<open>The token pattern as the patterns under \<open>(?i)\<close> read it.\<close>

definition is_tokenI :: "string \<Rightarrow> bool" where
  "is_tokenI w = (w \<noteq> [] \<and> set w \<subseteq> set nameC \<union> set foldC)"

text \<open>What a quoted pattern captures: a non-empty word without a quote.\<close>

definition is_quoted :: "string \<Rightarrow> bool" where
  "is_quoted w = (w \<noteq> [] \<and> CHR 0x27 \<notin> set w)"

lemma all_in_token: "all_in tokC w = is_token w"
  by (auto simp: all_in_def is_token_def list_all_iff tokC_def)

lemma all_in_tokenI: "all_in tokIC w = is_tokenI w"
  by (auto simp: all_in_def is_tokenI_def list_all_iff tokIC_def)

lemma all_in_quoted: "all_in nqC w = is_quoted w"
  by (auto simp: all_in_def is_quoted_def list_all_iff nqC_def)

lemma header_name_shape:
  assumes "header_name l = Some k"
  shows "is_token k \<or> (is_quoted k \<and> MatchString reHeaderQuoted l \<and> k = submatch reHeaderQuoted l 1)"
proof -
  from assms consider
    "MatchString reHeaderHashESP l" "k = submatch reHeaderHashESP l 1"
    | "MatchString reHeaderBrace l" "k = submatch reHeaderBrace l 1"
    | "MatchString reHeaderChildSA l" "k = submatch reHeaderChildSA l 1"
    | "MatchString reHeaderQuoted l" "k = submatch reHeaderQuoted l 1"
    by (auto simp: header_name_def header_pats_def split: if_splits)
  then show ?thesis
  proof cases
    case 1
    with submatch_ok [OF header_token_pats(1,2)] show ?thesis by (simp add: all_in_token)
  next
    case 2
    with submatch_ok [OF header_token_pats(3,4)] show ?thesis by (simp add: all_in_token)
  next
    case 3
    with submatch_ok [OF header_token_pats(5,6)] show ?thesis by (simp add: all_in_token)
  next
    case 4
    with submatch_ok [OF header_quoted_pat] show ?thesis by (simp add: all_in_quoted)
  qed
qed

lemma active_name_shape:
  assumes "active_name l = Some k"
  shows "is_tokenI k
    \<or> (is_quoted k \<and> MatchString act_reQuoted l \<and> k = submatch act_reQuoted l 1)
    \<or> (is_quoted k \<and> MatchString act_reInstalledLog l \<and> k = submatch act_reInstalledLog l 1)"
proof -
  from assms consider
    "MatchString act_reBrace l" "k = submatch act_reBrace l 1"
    | "MatchString act_reChildSa l" "k = submatch act_reChildSa l 1"
    | "MatchString act_reQuoted l" "k = submatch act_reQuoted l 1"
    | "MatchString act_reInstalled l" "k = submatch act_reInstalled l 1"
    | "MatchString act_reInstalledLog l" "k = submatch act_reInstalledLog l 1"
    | "MatchString act_reChildHashESP l" "k = submatch act_reChildHashESP l 1"
    | "MatchString act_reTolerantHeader l" "k = submatch act_reTolerantHeader l 1"
    by (auto simp: active_name_def active_pats_def split: if_splits)
  then show ?thesis
  proof cases
    case 1
    with submatch_ok [OF active_token_pats(1,2)] show ?thesis by (simp add: all_in_tokenI)
  next
    case 2
    with submatch_ok [OF active_token_pats(3,4)] show ?thesis by (simp add: all_in_tokenI)
  next
    case 3
    with submatch_ok [OF active_quoted_pats(1,2)] show ?thesis by (simp add: all_in_quoted)
  next
    case 4
    with submatch_ok [OF active_token_pats(5,6)] show ?thesis by (simp add: all_in_tokenI)
  next
    case 5
    with submatch_ok [OF active_quoted_pats(3,4)] show ?thesis by (simp add: all_in_quoted)
  next
    case 6
    with submatch_ok [OF active_token_pats(7,8)] show ?thesis by (simp add: all_in_tokenI)
  next
    case 7
    with submatch_ok [OF active_token_pats(9,10)] show ?thesis by (simp add: all_in_tokenI)
  qed
qed

section \<open>Trimming twice\<close>

lemma lead_width_None:
  "lead_width es s = None \<longleftrightarrow> (\<forall>e\<in>set es. e = [] \<or> take (length e) s \<noteq> e)"
  by (induction es) auto

lemma lead_width_prefix:
  assumes "lead_width es (w @ y) = None"
  shows "lead_width es w = None"
  unfolding lead_width_None
proof
  fix e assume e: "e \<in> set es"
  show "e = [] \<or> take (length e) w \<noteq> e"
  proof (rule ccontr)
    assume "\<not> (e = [] \<or> take (length e) w \<noteq> e)"
    then have ne: "e \<noteq> []" and t: "take (length e) w = e" by simp_all
    from take_full [OF t] have "length e \<le> length w" by simp
    with t have "take (length e) (w @ y) = e" by simp
    with assms e ne show False unfolding lead_width_None by blast
  qed
qed

lemma trim_lead_done: "lead_width es (trim_lead es s) = None"
proof (induction es s rule: trim_lead.induct)
  case (1 es s)
  show ?case
  proof (cases "lead_width es s")
    case None
    then show ?thesis by (subst trim_lead.simps) simp
  next
    case (Some n)
    from "1.IH" [OF Some] Some show ?thesis by (subst trim_lead.simps) simp
  qed
qed

lemma trim_lead_suffix: "\<exists>x. s = x @ trim_lead es s"
proof (induction es s rule: trim_lead.induct)
  case (1 es s)
  show ?case
  proof (cases "lead_width es s")
    case None
    then have "trim_lead es s = s" by (subst trim_lead.simps) simp
    then show ?thesis by simp
  next
    case (Some n)
    from "1.IH" [OF Some] obtain x where x: "drop n s = x @ trim_lead es (drop n s)" by blast
    from Some have t: "trim_lead es s = trim_lead es (drop n s)" by (subst trim_lead.simps) simp
    have "s = take n s @ drop n s" by simp
    also have "\<dots> = (take n s @ x) @ trim_lead es s" using x t by simp
    finally show ?thesis by blast
  qed
qed

lemma trim_lead_id: "lead_width es s = None \<Longrightarrow> trim_lead es s = s"
  by (subst trim_lead.simps) simp

lemma TrimSpace_idem: "TrimSpace (TrimSpace s) = TrimSpace s"
proof -
  let ?R = "map rev uspaces"
  define t where "t = trim_lead uspaces s"
  define u where "u = trim_lead ?R (rev t)"
  have w: "TrimSpace s = rev u" by (simp add: TrimSpace_def t_def u_def)
  from trim_lead_suffix [of "rev t" ?R] obtain x where "rev t = x @ u" unfolding u_def by blast
  then have "rev (rev t) = rev (x @ u)" by simp
  then have t: "t = rev u @ rev x" by simp
  have "lead_width uspaces t = None" unfolding t_def by (rule trim_lead_done)
  with t have "lead_width uspaces (rev u) = None" using lead_width_prefix by simp
  then have a: "trim_lead uspaces (rev u) = rev u" by (rule trim_lead_id)
  have "lead_width ?R u = None" unfolding u_def by (rule trim_lead_done)
  then have b: "trim_lead ?R u = u" by (rule trim_lead_id)
  have "TrimSpace (rev u) = rev (trim_lead ?R (rev (trim_lead uspaces (rev u))))"
    by (simp add: TrimSpace_def)
  also have "\<dots> = rev u" by (simp add: a b)
  finally show ?thesis by (simp add: w)
qed

section \<open>The names that the extractors emit\<close>

definition spaced_quoted :: string where
  "spaced_quoted = ''child '' @ quote @ '' x '' @ quote"

lemma spaced_quoted_facts:
  "parseStatusToStats spaced_quoted '' x ''
     = Some \<lparr>Active = True, InBytes = 0, OutBytes = 0, InPkts = 0, OutPkts = 0\<rparr>"
  "TrimSpace '' x '' = ''x''"
  "\<not> is_token '' x ''"
  by code_simp+

text \<open>
  C4, as the claim states it, fails: the quoted header \<^verbatim>\<open>child ' x '\<close> makes the
  Status Aggregator emit the key \<^verbatim>\<open>" x "\<close>, which has surrounding white space and
  does not match the token pattern.
\<close>

theorem names_are_tokens_counterexample:
  "'' x '' \<in> dom (parseStatusToStats spaced_quoted)
   \<and> \<not> is_token '' x ''
   \<and> TrimSpace '' x '' \<noteq> '' x ''"
proof -
  have "'' x '' \<in> dom (parseStatusToStats spaced_quoted)"
    using spaced_quoted_facts(1) by blast
  then show ?thesis using spaced_quoted_facts(2,3) by simp
qed

text \<open>
  C4, amended. Every key of the status mapping matches the token pattern
  \<^verbatim>\<open>[A-Za-z0-9._:-]+\<close> or is what a quoted header \<^verbatim>\<open>child '...'\<close> captures: a
  non-empty word without a quote, taken as it stands, untrimmed. Every name of the
  active-connections listing is a non-empty word of token bytes as the case-insensitive
  patterns read them (Go's case folding adds the runes U+212A and U+017F to the class),
  or is such a quoted capture, of \<^verbatim>\<open>child '...'\<close> or of
  \<^verbatim>\<open>installed CHILD_SA '...'\<close>. Every name of the configured-connections listing
  is non-empty and carries no surrounding white space.
\<close>

theorem emitted_names_shape:
  "(k \<in> dom (parseStatusToStats text) \<longrightarrow>
      is_token k
      \<or> (is_quoted k
          \<and> (\<exists>l\<in>set (split_lines text). MatchString reHeaderQuoted l
                \<and> k = submatch reHeaderQuoted l 1)))
   \<and> (n \<in> set (parseActiveChildrenFromListSas text) \<longrightarrow>
      is_tokenI n
      \<or> (is_quoted n
          \<and> (\<exists>l\<in>set (split_lines text).
                (MatchString act_reQuoted l \<and> n = submatch act_reQuoted l 1)
                \<or> (MatchString act_reInstalledLog l \<and> n = submatch act_reInstalledLog l 1))))
   \<and> (m \<in> set (childrenJSONHandler connsOut sasOut) \<longrightarrow> m \<noteq> [] \<and> TrimSpace m = m)"
proof (intro conjI impI)
  assume "k \<in> dom (parseStatusToStats text)"
  then obtain l where l: "l \<in> set (split_lines text)" and h: "header_name l = Some k"
    unfolding dom_parseStatusToStats by blast
  from header_name_shape [OF h] l
  show "is_token k
      \<or> (is_quoted k
          \<and> (\<exists>l\<in>set (split_lines text). MatchString reHeaderQuoted l
                \<and> k = submatch reHeaderQuoted l 1))"
    by blast
next
  assume "n \<in> set (parseActiveChildrenFromListSas text)"
  then obtain l where l: "l \<in> set (split_lines text)" and h: "active_name l = Some n"
    unfolding set_parseActive by blast
  from active_name_shape [OF h] l
  show "is_tokenI n
      \<or> (is_quoted n
          \<and> (\<exists>l\<in>set (split_lines text).
                (MatchString act_reQuoted l \<and> n = submatch act_reQuoted l 1)
                \<or> (MatchString act_reInstalledLog l \<and> n = submatch act_reInstalledLog l 1)))"
    by blast
next
  assume "m \<in> set (childrenJSONHandler connsOut sasOut)"
  then obtain x where "m = TrimSpace x" and "TrimSpace x \<noteq> []"
    unfolding set_childrenJSONHandler by blast
  then show "m \<noteq> []" and "TrimSpace m = m" by (simp_all add: TrimSpace_idem)
qed

lemma installed_line_not_quoted:
  "split_lines ''tun1: INSTALLED'' = [''tun1: INSTALLED'']"
  "\<not> MatchString act_reQuoted ''tun1: INSTALLED''"
  "\<not> MatchString act_reInstalledLog ''tun1: INSTALLED''"
  by code_simp+

theorem emitted_names_shape_witness:
  "'' x '' \<in> dom (parseStatusToStats spaced_quoted)
   \<and> is_quoted '' x ''
   \<and> ''tun1'' \<in> set (parseActiveChildrenFromListSas ''tun1: INSTALLED'')
   \<and> is_tokenI ''tun1''
   \<and> ''q'' \<in> set (childrenJSONHandler ''no connections'' three_sas)
   \<and> TrimSpace ''q'' = ''q''"
proof -
  have a: "'' x '' \<in> dom (parseStatusToStats spaced_quoted)"
    using spaced_quoted_facts(1) by blast
  have b: "''tun1'' \<in> set (parseActiveChildrenFromListSas ''tun1: INSTALLED'')"
    by (simp add: installed_line_facts(1))
  have c: "''q'' \<in> set (childrenJSONHandler ''no connections'' three_sas)"
    by (simp add: three_sas_facts(2))
  from emitted_names_shape [of "'' x ''" spaced_quoted] a spaced_quoted_facts(3)
  have q: "is_quoted '' x ''" by blast
  from emitted_names_shape [of _ "''tun1: INSTALLED''" "''tun1''"] b installed_line_not_quoted
  have t: "is_tokenI ''tun1''" by auto
  from emitted_names_shape [of _ _ _ "''q''" "''no connections''" three_sas] c
  have r: "TrimSpace ''q'' = ''q''" by blast
  from a q b t c r show ?thesis by simp
qed

end
